theory Spec2Isabelle
  imports Main "HOL-Library.Word" "HOL-Library.Multiset"
begin

section \<open>Memory model of \<open>src/cpp/ds/dllist.cpp\<close>\<close>

text \<open>
  A node pointer is an address or \<open>nullptr\<close> (\<open>None\<close>). The node store maps the
  address of every live node to its three fields; \<open>delete\<close> removes the address
  from the store. Reading or writing through \<open>nullptr\<close> or through the address of
  a node that is not live is undefined behaviour in C++ and is the outcome
  \<open>Undefined\<close> of the model.
\<close>

type_synonym ptr = "nat option"

record 'a node =
  val :: 'a
  prev :: ptr
  "next" :: ptr

type_synonym 'a heap = "nat \<Rightarrow> 'a node option"

text \<open>The three data members \<open>_head\<close>, \<open>_tail\<close>, \<open>_size\<close> (a \<open>size_t\<close>) of a list object.\<close>

record dllist =
  head :: ptr
  tail :: ptr
  size_dl :: "64 word"

text \<open>\<open>struct _iter\<close>: the node pointer \<open>_ptr\<close> and the address \<open>_list\<close> of the owning
  list object.\<close>

record itr =
  ptr_of :: ptr
  list_of :: nat

text \<open>
  A call either returns a value in a final state, or throws the
  \<open>std::runtime_error\<close> of \<open>CHECK_THROW(expr)\<close> in the state reached at the throw
  (the message is the text of \<open>expr\<close>; its \<open>FILE=\<close> and \<open>LINE=\<close> suffix is left
  out), or has undefined behaviour.
\<close>

datatype ('r, 's) outcome = Return 'r 's | Throw string 's | Undefined

text \<open>\<open>new _node(...)\<close>: the allocator chooses the address; storage is assumed to be
  available, so \<open>new\<close> itself does not throw.\<close>

type_synonym 'a allocator = "'a heap \<Rightarrow> nat"

definition mk_node :: "'a \<Rightarrow> ptr \<Rightarrow> ptr \<Rightarrow> 'a node" where
  "mk_node v p n = \<lparr>val = v, prev = p, next = n\<rparr>"

definition new_node :: "'a allocator \<Rightarrow> 'a heap \<Rightarrow> 'a node \<Rightarrow> nat \<times> 'a heap" where
  "new_node alloc h n = (let a = alloc h in (a, h(a \<mapsto> n)))"

text \<open>\<open>*p\<close>, \<open>p->_prev = q\<close>, \<open>p->_next = q\<close> and \<open>delete p\<close>; \<open>None\<close> is undefined
  behaviour (\<open>delete nullptr\<close> does nothing).\<close>

definition deref :: "'a heap \<Rightarrow> ptr \<Rightarrow> 'a node option" where
  "deref h p = (case p of None \<Rightarrow> None | Some a \<Rightarrow> h a)"

definition set_prev :: "'a heap \<Rightarrow> ptr \<Rightarrow> ptr \<Rightarrow> 'a heap option" where
  "set_prev h p q =
     (case p of None \<Rightarrow> None
      | Some a \<Rightarrow> (case h a of None \<Rightarrow> None | Some n \<Rightarrow> Some (h(a \<mapsto> n\<lparr>prev := q\<rparr>))))"

definition set_next :: "'a heap \<Rightarrow> ptr \<Rightarrow> ptr \<Rightarrow> 'a heap option" where
  "set_next h p q =
     (case p of None \<Rightarrow> None
      | Some a \<Rightarrow> (case h a of None \<Rightarrow> None | Some n \<Rightarrow> Some (h(a \<mapsto> n\<lparr>next := q\<rparr>))))"

definition delete_node :: "'a heap \<Rightarrow> ptr \<Rightarrow> 'a heap option" where
  "delete_node h p =
     (case p of None \<Rightarrow> Some h
      | Some a \<Rightarrow> (case h a of None \<Rightarrow> None | Some n \<Rightarrow> Some (h(a := None))))"

section \<open>Iterators\<close>

text \<open>List objects live in a store of their own, so that two references to a list
  (and the back pointer of an iterator) can name the same object.\<close>

record 'a state =
  nodes :: "'a heap"
  lists :: "nat \<Rightarrow> dllist option"

definition begin_itr :: "nat \<Rightarrow> dllist \<Rightarrow> itr" where
  "begin_itr this l = \<lparr>ptr_of = head l, list_of = this\<rparr>"

definition end_itr :: "nat \<Rightarrow> itr" where
  "end_itr this = \<lparr>ptr_of = None, list_of = this\<rparr>"

text \<open>\<open>operator*\<close>: \<open>CHECK_THROW(_ptr); return _ptr->_val;\<close>\<close>

definition itr_deref :: "itr \<Rightarrow> 'a state \<Rightarrow> ('a, 'a state) outcome" where
  "itr_deref it s =
     (case ptr_of it of
        None \<Rightarrow> Throw ''_ptr'' s
      | Some a \<Rightarrow> (case nodes s a of None \<Rightarrow> Undefined | Some n \<Rightarrow> Return (val n) s))"

text \<open>\<open>operator++\<close>: \<open>_ptr = _ptr ? _ptr->_next : _list->_head\<close>, and \<open>operator--\<close>:
  \<open>_ptr = _ptr ? _ptr->_prev : _list->_tail\<close>.\<close>

definition itr_inc :: "itr \<Rightarrow> 'a state \<Rightarrow> (itr, 'a state) outcome" where
  "itr_inc it s =
     (case ptr_of it of
        Some a \<Rightarrow> (case nodes s a of None \<Rightarrow> Undefined
                   | Some n \<Rightarrow> Return (it\<lparr>ptr_of := next n\<rparr>) s)
      | None \<Rightarrow> (case lists s (list_of it) of None \<Rightarrow> Undefined
                 | Some l \<Rightarrow> Return (it\<lparr>ptr_of := head l\<rparr>) s))"

definition itr_dec :: "itr \<Rightarrow> 'a state \<Rightarrow> (itr, 'a state) outcome" where
  "itr_dec it s =
     (case ptr_of it of
        Some a \<Rightarrow> (case nodes s a of None \<Rightarrow> Undefined
                   | Some n \<Rightarrow> Return (it\<lparr>ptr_of := prev n\<rparr>) s)
      | None \<Rightarrow> (case lists s (list_of it) of None \<Rightarrow> Undefined
                 | Some l \<Rightarrow> Return (it\<lparr>ptr_of := tail l\<rparr>) s))"

text \<open>\<open>++\<close> and \<open>--\<close> applied \<open>k\<close> times in a row.\<close>

fun itr_inc_n :: "nat \<Rightarrow> itr \<Rightarrow> 'a state \<Rightarrow> (itr, 'a state) outcome" where
  "itr_inc_n 0 it s = Return it s"
| "itr_inc_n (Suc k) it s =
     (case itr_inc it s of Return it1 s1 \<Rightarrow> itr_inc_n k it1 s1
      | Throw m s1 \<Rightarrow> Throw m s1 | Undefined \<Rightarrow> Undefined)"

fun itr_dec_n :: "nat \<Rightarrow> itr \<Rightarrow> 'a state \<Rightarrow> (itr, 'a state) outcome" where
  "itr_dec_n 0 it s = Return it s"
| "itr_dec_n (Suc k) it s =
     (case itr_dec it s of Return it1 s1 \<Rightarrow> itr_dec_n k it1 s1
      | Throw m s1 \<Rightarrow> Throw m s1 | Undefined \<Rightarrow> Undefined)"

section \<open>Member functions working on \<open>*this\<close> only\<close>

text \<open>A member function that touches no list object but \<open>*this\<close> is a function of
  the node store and of the members of \<open>*this\<close>.\<close>

definition DLList :: dllist where
  "DLList = \<lparr>head = None, tail = None, size_dl = 0\<rparr>"

definition size_of :: "dllist \<Rightarrow> 64 word" where
  "size_of l = size_dl l"

definition empty_dl :: "dllist \<Rightarrow> bool" where
  "empty_dl l = (size_dl l = 0)"

text \<open>\<open>DLList(int64_t siz, const T& val)\<close>; the loop is \<open>while (--siz)\<close>. The argument
  \<open>l\<close> holds the members of the object under construction before the call.\<close>

function fill_loop ::
  "'a allocator \<Rightarrow> 'a \<Rightarrow> 64 word \<Rightarrow> 'a heap \<Rightarrow> dllist \<Rightarrow> (unit, 'a heap \<times> dllist) outcome" where
  "fill_loop alloc v siz h l =
     (let siz1 = siz - 1 in
      if siz1 \<noteq> 0 then
        (let (a, h1) = new_node alloc h (mk_node v (tail l) None) in
         case set_next h1 (tail l) (Some a) of
           None \<Rightarrow> Undefined
         | Some h2 \<Rightarrow>
            (case deref h2 (tail l) of None \<Rightarrow> Undefined
             | Some t \<Rightarrow> fill_loop alloc v siz1 h2 (l\<lparr>tail := next t\<rparr>)))
      else Return () (h, l))"
  by pat_completeness auto
termination
proof (relation "measure (\<lambda>(alloc, v, siz, h, l). unat (siz - 1))", goal_cases)
  case 1
  show ?case by simp
next
  case (2 alloc v siz h l siz1 x a h1 h2 t)
  then have "siz - 1 \<noteq> 0" by simp
  then have "unat (siz - 1 - 1) < unat (siz - 1)"
    by (metis unat_minus_one diff_less unat_gt_0 zero_less_one)
  with 2 show ?case by simp
qed

definition DLList_fill ::
  "'a allocator \<Rightarrow> 64 word \<Rightarrow> 'a \<Rightarrow> 'a heap \<Rightarrow> dllist \<Rightarrow> (unit, 'a heap \<times> dllist) outcome" where
  "DLList_fill alloc siz v h l =
     (if \<not> (0 \<le>s siz) then Throw ''siz >= 0'' (h, l)
      else if \<not> (siz <s 2 ^ 48) then Throw ''siz < (1LL << 48)'' (h, l)
      else
        (let l1 = l\<lparr>size_dl := siz\<rparr> in
         if siz = 0 then Return () (h, l1\<lparr>head := None, tail := None\<rparr>)
         else
           (let (a, h1) = new_node alloc h (mk_node v None None) in
            fill_loop alloc v siz h1 (l1\<lparr>head := Some a, tail := Some a\<rparr>))))"

text \<open>\<open>push_front\<close>, \<open>push_back\<close> (the overloads for \<open>const T&\<close> and \<open>T&&\<close> have the
  same body).\<close>

definition push_front ::
  "'a allocator \<Rightarrow> 'a \<Rightarrow> 'a heap \<Rightarrow> dllist \<Rightarrow> (unit, 'a heap \<times> dllist) outcome" where
  "push_front alloc v h l =
     (case head l of
        None \<Rightarrow>
          (let (a, h1) = new_node alloc h (mk_node v None None) in
           Return () (h1, l\<lparr>head := Some a, tail := Some a, size_dl := size_dl l + 1\<rparr>))
      | Some b \<Rightarrow>
          (let (a, h1) = new_node alloc h (mk_node v None (head l)) in
           case set_prev h1 (head l) (Some a) of
             None \<Rightarrow> Undefined
           | Some h2 \<Rightarrow>
              (case deref h2 (head l) of None \<Rightarrow> Undefined
               | Some n \<Rightarrow> Return () (h2, l\<lparr>head := prev n, size_dl := size_dl l + 1\<rparr>))))"

definition push_back ::
  "'a allocator \<Rightarrow> 'a \<Rightarrow> 'a heap \<Rightarrow> dllist \<Rightarrow> (unit, 'a heap \<times> dllist) outcome" where
  "push_back alloc v h l =
     (case head l of
        None \<Rightarrow>
          (let (a, h1) = new_node alloc h (mk_node v None None) in
           Return () (h1, l\<lparr>head := Some a, tail := Some a, size_dl := size_dl l + 1\<rparr>))
      | Some b \<Rightarrow>
          (let (a, h1) = new_node alloc h (mk_node v (tail l) None) in
           case set_next h1 (tail l) (Some a) of
             None \<Rightarrow> Undefined
           | Some h2 \<Rightarrow>
              (case deref h2 (tail l) of None \<Rightarrow> Undefined
               | Some n \<Rightarrow> Return () (h2, l\<lparr>tail := next n, size_dl := size_dl l + 1\<rparr>))))"

text \<open>\<open>pop_front\<close> and \<open>pop_back\<close>.\<close>

definition pop_front :: "'a heap \<Rightarrow> dllist \<Rightarrow> ('a, 'a heap \<times> dllist) outcome" where
  "pop_front h l =
     (if head l = None then Throw ''_head'' (h, l)
      else
        (case deref h (head l) of None \<Rightarrow> Undefined
         | Some n \<Rightarrow>
            (let ret = val n; l1 = l\<lparr>head := next n\<rparr> in
             case delete_node h (head l) of None \<Rightarrow> Undefined
             | Some h1 \<Rightarrow>
                (if head l1 \<noteq> None then
                   (case set_prev h1 (head l1) None of None \<Rightarrow> Undefined
                    | Some h2 \<Rightarrow> Return ret (h2, l1\<lparr>size_dl := size_dl l1 - 1\<rparr>))
                 else Return ret (h1, l1\<lparr>tail := None, size_dl := size_dl l1 - 1\<rparr>)))))"

definition pop_back :: "'a heap \<Rightarrow> dllist \<Rightarrow> ('a, 'a heap \<times> dllist) outcome" where
  "pop_back h l =
     (if tail l = None then Throw ''_tail'' (h, l)
      else
        (case deref h (tail l) of None \<Rightarrow> Undefined
         | Some n \<Rightarrow>
            (let ret = val n; l1 = l\<lparr>tail := prev n\<rparr> in
             case delete_node h (tail l) of None \<Rightarrow> Undefined
             | Some h1 \<Rightarrow>
                (if tail l1 \<noteq> None then
                   (case set_next h1 (tail l1) None of None \<Rightarrow> Undefined
                    | Some h2 \<Rightarrow> Return ret (h2, l1\<lparr>size_dl := size_dl l1 - 1\<rparr>))
                 else Return ret (h1, l1\<lparr>head := None, size_dl := size_dl l1 - 1\<rparr>)))))"

text \<open>\<open>get(int64_t i)\<close> returns a reference to the \<open>_val\<close> of a node: the model returns
  the address of that node. The two loops are \<open>while (++j < _size) n = n->_prev\<close> and
  \<open>while (j--) n = n->_next\<close>; the casts \<open>(int64_t)_size\<close> keep the bits, and the
  comparisons of the check are signed.\<close>

definition ref_val :: "'a heap \<Rightarrow> ptr \<Rightarrow> 'a heap \<times> dllist \<Rightarrow> (nat, 'a heap \<times> dllist) outcome" where
  "ref_val h n s = (case n of None \<Rightarrow> Undefined
                    | Some a \<Rightarrow> (case h a of None \<Rightarrow> Undefined | Some nd \<Rightarrow> Return a s))"

function get_back ::
  "'a heap \<Rightarrow> dllist \<Rightarrow> ptr \<Rightarrow> 64 word \<Rightarrow> (nat, 'a heap \<times> dllist) outcome" where
  "get_back h l n j =
     (let j1 = j + 1 in
      if j1 < size_dl l then
        (case deref h n of None \<Rightarrow> Undefined | Some nd \<Rightarrow> get_back h l (prev nd) j1)
      else ref_val h n (h, l))"
  by pat_completeness auto
termination
proof (relation "measure (\<lambda>(h, l, n, j). unat (size_dl l - (j + 1)))", goal_cases)
  case 1
  show ?case by simp
next
  case (2 h l n j j1 nd)
  then have lt: "j + 1 < size_dl l" by simp
  define w where "w = size_dl l - (j + 1)"
  have "w \<noteq> 0" using lt by (auto simp: w_def)
  then have "unat (w - 1) < unat w"
    by (metis unat_minus_one diff_less unat_gt_0 zero_less_one)
  moreover have "size_dl l - (j + 1 + 1) = w - 1" by (simp add: w_def)
  ultimately have "unat (size_dl l - (j + 1 + 1)) < unat (size_dl l - (j + 1))"
    by (simp only: w_def)
  with 2 show ?case by simp
qed

function get_fwd ::
  "'a heap \<Rightarrow> dllist \<Rightarrow> ptr \<Rightarrow> 64 word \<Rightarrow> (nat, 'a heap \<times> dllist) outcome" where
  "get_fwd h l n j =
     (if j \<noteq> 0 then
        (case deref h n of None \<Rightarrow> Undefined | Some nd \<Rightarrow> get_fwd h l (next nd) (j - 1))
      else ref_val h n (h, l))"
  by pat_completeness auto
termination
proof (relation "measure (\<lambda>(h, l, n, j). unat j)", goal_cases)
  case 1
  show ?case by simp
next
  case (2 h l n j nd)
  then have "unat (j - 1) < unat j"
    by (metis unat_minus_one diff_less unat_gt_0 zero_less_one)
  then show ?case by simp
qed

definition get_dl :: "64 word \<Rightarrow> 'a heap \<Rightarrow> dllist \<Rightarrow> (nat, 'a heap \<times> dllist) outcome" where
  "get_dl i h l =
     (if \<not> (i <s size_dl l \<and> - size_dl l \<le>s i)
      then Throw ''i < (int64_t)_size && i >= -(int64_t)_size'' (h, l)
      else
        (let j = (if 0 \<le>s i then i else size_dl l + i) in
         if size_dl l div 2 \<le> j then get_back h l (tail l) j
         else get_fwd h l (head l) j))"

text \<open>\<open>_clear\<close>: deletes every node reached from \<open>_head\<close>; does not touch \<open>_size\<close>.\<close>

partial_function (option) priv_clear ::
  "'a heap \<Rightarrow> dllist \<Rightarrow> (unit, 'a heap \<times> dllist) outcome option" where
  "priv_clear h l =
     (if head l \<noteq> None then
        (case deref h (head l) of None \<Rightarrow> Some Undefined
         | Some n \<Rightarrow>
            (case delete_node h (head l) of None \<Rightarrow> Some Undefined
             | Some h1 \<Rightarrow> priv_clear h1 (l\<lparr>head := next n\<rparr>)))
      else Some (Return () (h, l\<lparr>tail := None\<rparr>)))"

text \<open>\<open>_copy_ll(n)\<close>: duplicates the chain that starts at \<open>n\<close>.\<close>

partial_function (option) copy_loop ::
  "'a allocator \<Rightarrow> ptr \<Rightarrow> 'a heap \<Rightarrow> dllist \<Rightarrow> (unit, 'a heap \<times> dllist) outcome option" where
  "copy_loop alloc n h l =
     (case deref h n of None \<Rightarrow> Some Undefined
      | Some nd \<Rightarrow>
         (if next nd \<noteq> None then
            (case deref h (next nd) of None \<Rightarrow> Some Undefined
             | Some nd1 \<Rightarrow>
                (let (a, h1) = new_node alloc h (mk_node (val nd1) (tail l) None) in
                 case set_next h1 (tail l) (Some a) of None \<Rightarrow> Some Undefined
                 | Some h2 \<Rightarrow>
                    (case deref h2 (tail l) of None \<Rightarrow> Some Undefined
                     | Some t \<Rightarrow> copy_loop alloc (next nd) h2 (l\<lparr>tail := next t\<rparr>))))
          else Some (Return () (h, l))))"

definition priv_copy_ll ::
  "'a allocator \<Rightarrow> ptr \<Rightarrow> 'a heap \<Rightarrow> dllist \<Rightarrow> (unit, 'a heap \<times> dllist) outcome option" where
  "priv_copy_ll alloc n h l =
     (if n = None then Some (Return () (h, l\<lparr>head := None, tail := None\<rparr>))
      else
        (case deref h n of None \<Rightarrow> Some Undefined
         | Some nd \<Rightarrow>
            (let (a, h1) = new_node alloc h (mk_node (val nd) None None) in
             copy_loop alloc n h1 (l\<lparr>head := Some a, tail := Some a\<rparr>))))"

text \<open>\<open>reverse\<close>: \<open>std::swap(_head,_tail)\<close>, then the loop swaps the two links of every
  node reached from the new head.\<close>

partial_function (option) reverse_loop ::
  "ptr \<Rightarrow> 'a heap \<Rightarrow> dllist \<Rightarrow> (unit, 'a heap \<times> dllist) outcome option" where
  "reverse_loop n h l =
     (case n of
        None \<Rightarrow> Some (Return () (h, l))
      | Some a \<Rightarrow>
         (case h a of None \<Rightarrow> Some Undefined
          | Some nd \<Rightarrow>
             (let nd1 = nd\<lparr>prev := next nd, next := prev nd\<rparr> in
              reverse_loop (next nd1) (h(a \<mapsto> nd1)) l)))"

definition reverse :: "'a heap \<Rightarrow> dllist \<Rightarrow> (unit, 'a heap \<times> dllist) outcome option" where
  "reverse h l = (let l1 = l\<lparr>head := tail l, tail := head l\<rparr> in reverse_loop (head l1) h l1)"

text \<open>Sequencing of calls: a throw or undefined behaviour ends the caller too, and a
  call that does not return (\<open>None\<close>) keeps the caller from returning.\<close>

definition then_do ::
  "('r, 's) outcome option \<Rightarrow> ('r \<Rightarrow> 's \<Rightarrow> ('q, 's) outcome option) \<Rightarrow> ('q, 's) outcome option" where
  "then_do m f =
     (case m of None \<Rightarrow> None
      | Some (Return r s) \<Rightarrow> f r s
      | Some (Throw e s) \<Rightarrow> Some (Throw e s)
      | Some Undefined \<Rightarrow> Some Undefined)"

text \<open>\<open>clear\<close>: \<open>_clear(); _size = 0;\<close>\<close>

definition clear :: "'a heap \<Rightarrow> dllist \<Rightarrow> (unit, 'a heap \<times> dllist) outcome option" where
  "clear h l = then_do (priv_clear h l) (\<lambda>_ (h1, l1). Some (Return () (h1, l1\<lparr>size_dl := 0\<rparr>)))"

text \<open>\<open>insert(itr, val)\<close> and \<open>erase(itr)\<close>; iterators are compared by \<open>_ptr\<close>
  (\<open>_iter::operator==\<close>).\<close>

definition insert_dl ::
  "'a allocator \<Rightarrow> nat \<Rightarrow> itr \<Rightarrow> 'a \<Rightarrow> 'a heap \<Rightarrow> dllist \<Rightarrow> (itr, 'a heap \<times> dllist) outcome" where
  "insert_dl alloc this it v h l =
     (if ptr_of it = ptr_of (begin_itr this l) then
        (case push_front alloc v h l of
           Return _ (h1, l1) \<Rightarrow> Return (begin_itr this l1) (h1, l1)
         | Throw m s \<Rightarrow> Throw m s
         | Undefined \<Rightarrow> Undefined)
      else if ptr_of it = ptr_of (end_itr this) then
        (case push_back alloc v h l of
           Return _ (h1, l1) \<Rightarrow> Return \<lparr>ptr_of = tail l1, list_of = this\<rparr> (h1, l1)
         | Throw m s \<Rightarrow> Throw m s
         | Undefined \<Rightarrow> Undefined)
      else
        (let l1 = l\<lparr>size_dl := size_dl l + 1\<rparr> in
         case deref h (ptr_of it) of None \<Rightarrow> Undefined
         | Some ni \<Rightarrow>
            (let (a, h1) = new_node alloc h (mk_node v (prev ni) (ptr_of it)) in
             case deref h1 (ptr_of it) of None \<Rightarrow> Undefined
             | Some ni1 \<Rightarrow>
                (case set_next h1 (prev ni1) (Some a) of None \<Rightarrow> Undefined
                 | Some h2 \<Rightarrow>
                    (case set_prev h2 (ptr_of it) (Some a) of None \<Rightarrow> Undefined
                     | Some h3 \<Rightarrow> Return \<lparr>ptr_of = Some a, list_of = this\<rparr> (h3, l1))))))"

definition erase ::
  "nat \<Rightarrow> itr \<Rightarrow> 'a heap \<Rightarrow> dllist \<Rightarrow> (itr, 'a heap \<times> dllist) outcome" where
  "erase this it h l =
     (if \<not> (ptr_of it \<noteq> ptr_of (end_itr this)) then Throw ''itr != end()'' (h, l)
      else if ptr_of it = ptr_of (begin_itr this l) then
        (case pop_front h l of
           Return _ (h1, l1) \<Rightarrow> Return (begin_itr this l1) (h1, l1)
         | Throw m s \<Rightarrow> Throw m s
         | Undefined \<Rightarrow> Undefined)
      else
        (let l1 = l\<lparr>size_dl := size_dl l - 1\<rparr> in
         if ptr_of it = tail l1 then
           (case deref h (ptr_of it) of None \<Rightarrow> Undefined
            | Some ni \<Rightarrow>
               (let l2 = l1\<lparr>tail := prev ni\<rparr> in
                case set_next h (tail l2) None of None \<Rightarrow> Undefined
                | Some h1 \<Rightarrow>
                   (case delete_node h1 (ptr_of it) of None \<Rightarrow> Undefined
                    | Some h2 \<Rightarrow> Return (end_itr this) (h2, l2))))
         else
           (case deref h (ptr_of it) of None \<Rightarrow> Undefined
            | Some ni \<Rightarrow>
               (case set_next h (prev ni) (next ni) of None \<Rightarrow> Undefined
                | Some h1 \<Rightarrow>
                   (case deref h1 (ptr_of it) of None \<Rightarrow> Undefined
                    | Some ni1 \<Rightarrow>
                       (case set_prev h1 (next ni1) (prev ni1) of None \<Rightarrow> Undefined
                        | Some h2 \<Rightarrow>
                           (case deref h2 (ptr_of it) of None \<Rightarrow> Undefined
                            | Some ni2 \<Rightarrow>
                               (let ret = \<lparr>ptr_of = next ni2, list_of = this\<rparr> in
                                case delete_node h2 (ptr_of it) of None \<Rightarrow> Undefined
                                | Some h3 \<Rightarrow> Return ret (h3, l1)))))))))"

text \<open>\<open>operator==\<close> reads the members of both lists and changes nothing.\<close>

partial_function (option) eq_loop ::
  "'a heap \<Rightarrow> ptr \<Rightarrow> ptr \<Rightarrow> (bool, 'a heap) outcome option" where
  "eq_loop h n1 n2 =
     (if n1 \<noteq> None then
        (case deref h n1 of None \<Rightarrow> Some Undefined
         | Some a \<Rightarrow>
            (case deref h n2 of None \<Rightarrow> Some Undefined
             | Some b \<Rightarrow>
                (if val a \<noteq> val b then Some (Return False h)
                 else eq_loop h (next a) (next b))))
      else Some (Return True h))"

definition equal_dl :: "'a heap \<Rightarrow> dllist \<Rightarrow> dllist \<Rightarrow> (bool, 'a heap) outcome option" where
  "equal_dl h l list =
     (if size_dl l \<noteq> size_dl list then Some (Return False h)
      else eq_loop h (head l) (head list))"

section \<open>Stable in-place merge sort\<close>

text \<open>The loop of \<open>_sort\<close> that finds the two middle nodes \<open>m1\<close>, \<open>m2\<close>.\<close>

partial_function (option) sort_split ::
  "'a heap \<Rightarrow> ptr \<Rightarrow> ptr \<Rightarrow> (ptr \<times> ptr, 'a heap) outcome option" where
  "sort_split h m1 m2 =
     (case deref h m1 of None \<Rightarrow> Some Undefined
      | Some n1 \<Rightarrow>
         (if next n1 = m2 then Some (Return (m1, m2) h)
          else
            (case deref h m2 of None \<Rightarrow> Some Undefined
             | Some n2 \<Rightarrow>
                (if prev n2 = next n1 then Some (Return (next n1, m2) h)
                 else sort_split h (next n1) (prev n2)))))"

text \<open>The loop \<open>while (left && right)\<close> of the merge; it returns \<open>left\<close>, \<open>right\<close>
  and \<open>ret_tail\<close>.\<close>

partial_function (option) merge_loop ::
  "('a \<Rightarrow> 'a \<Rightarrow> bool) \<Rightarrow> 'a heap \<Rightarrow> ptr \<Rightarrow> ptr \<Rightarrow> ptr \<Rightarrow> (ptr \<times> ptr \<times> ptr, 'a heap) outcome option" where
  "merge_loop cmp h left right ret_tail =
     (if left \<noteq> None \<and> right \<noteq> None then
        (case deref h right of None \<Rightarrow> Some Undefined
         | Some nr \<Rightarrow>
            (case deref h left of None \<Rightarrow> Some Undefined
             | Some nl \<Rightarrow>
                (if cmp (val nr) (val nl) then
                   (case set_prev h right ret_tail of None \<Rightarrow> Some Undefined
                    | Some h1 \<Rightarrow>
                       (case set_next h1 ret_tail right of None \<Rightarrow> Some Undefined
                        | Some h2 \<Rightarrow>
                           (case deref h2 right of None \<Rightarrow> Some Undefined
                            | Some nr2 \<Rightarrow>
                               (case deref h2 ret_tail of None \<Rightarrow> Some Undefined
                                | Some nt \<Rightarrow> merge_loop cmp h2 left (next nr2) (next nt)))))
                 else
                   (case set_prev h left ret_tail of None \<Rightarrow> Some Undefined
                    | Some h1 \<Rightarrow>
                       (case set_next h1 ret_tail left of None \<Rightarrow> Some Undefined
                        | Some h2 \<Rightarrow>
                           (case deref h2 left of None \<Rightarrow> Some Undefined
                            | Some nl2 \<Rightarrow>
                               (case deref h2 ret_tail of None \<Rightarrow> Some Undefined
                                | Some nt \<Rightarrow> merge_loop cmp h2 (next nl2) right (next nt))))))))
      else Some (Return (left, right, ret_tail) h))"

text \<open>The end of \<open>_sort\<close> after the loop: the remainder of the half that is not
  exhausted is spliced to \<open>ret_tail\<close>, and the tail of that half is the tail of the
  result.\<close>

definition merge_splice ::
  "ptr \<Rightarrow> ptr \<times> ptr \<Rightarrow> ptr \<times> ptr \<Rightarrow> ptr \<times> ptr \<times> ptr \<Rightarrow> 'a heap
     \<Rightarrow> (ptr \<times> ptr, 'a heap) outcome option" where
  "merge_splice ret_head sorted_left sorted_right lrt h =
     (case lrt of (left, right, ret_tail) \<Rightarrow>
        if left \<noteq> None then
          (case set_prev h left ret_tail of None \<Rightarrow> Some Undefined
           | Some h1 \<Rightarrow>
              (case set_next h1 ret_tail left of None \<Rightarrow> Some Undefined
               | Some h2 \<Rightarrow> Some (Return (ret_head, snd sorted_left) h2)))
        else
          (case set_prev h right ret_tail of None \<Rightarrow> Some Undefined
           | Some h1 \<Rightarrow>
              (case set_next h1 ret_tail right of None \<Rightarrow> Some Undefined
               | Some h2 \<Rightarrow> Some (Return (ret_head, snd sorted_right) h2))))"

text \<open>The merge of \<open>_sort\<close> (from \<open>_node *left = sorted_left.first\<close> on): the first
  node, the loop, the splice of the remainder.\<close>

definition sort_merge ::
  "('a \<Rightarrow> 'a \<Rightarrow> bool) \<Rightarrow> 'a heap \<Rightarrow> ptr \<times> ptr \<Rightarrow> ptr \<times> ptr \<Rightarrow> (ptr \<times> ptr, 'a heap) outcome option" where
  "sort_merge cmp h sorted_left sorted_right =
     (let left = fst sorted_left; right = fst sorted_right in
      case deref h right of None \<Rightarrow> Some Undefined
      | Some nr \<Rightarrow>
         (case deref h left of None \<Rightarrow> Some Undefined
          | Some nl \<Rightarrow>
             (if cmp (val nr) (val nl)
              then then_do (merge_loop cmp h left (next nr) right)
                     (merge_splice right sorted_left sorted_right)
              else then_do (merge_loop cmp h (next nl) right left)
                     (merge_splice left sorted_left sorted_right))))"

text \<open>\<open>_sort(beg, end, comp)\<close>; the comparator \<open>comp\<close> is written \<open>cmp\<close> and the
  bound \<open>end\<close> is written \<open>en\<close>.\<close>

partial_function (option) priv_sort ::
  "('a \<Rightarrow> 'a \<Rightarrow> bool) \<Rightarrow> 'a heap \<Rightarrow> ptr \<Rightarrow> ptr \<Rightarrow> (ptr \<times> ptr, 'a heap) outcome option" where
  "priv_sort cmp h beg en =
     (if beg = en then Some (Return (beg, en) h)
      else
        Option.bind (sort_split h beg en) (\<lambda>r.
          case r of
            Return (m1, m2) h0 \<Rightarrow>
              (case set_next h0 m1 None of None \<Rightarrow> Some Undefined
               | Some h1 \<Rightarrow>
                  (case set_prev h1 m2 None of None \<Rightarrow> Some Undefined
                   | Some h2 \<Rightarrow>
                      Option.bind (priv_sort cmp h2 beg m1) (\<lambda>r.
                        case r of
                          Return sorted_left h3 \<Rightarrow>
                            Option.bind (priv_sort cmp h3 m2 en) (\<lambda>r.
                              case r of
                                Return sorted_right h4 \<Rightarrow>
                                  sort_merge cmp h4 sorted_left sorted_right
                              | Throw m h4 \<Rightarrow> Some (Throw m h4)
                              | Undefined \<Rightarrow> Some Undefined)
                        | Throw m h3 \<Rightarrow> Some (Throw m h3)
                        | Undefined \<Rightarrow> Some Undefined)))
          | Throw m h0 \<Rightarrow> Some (Throw m h0)
          | Undefined \<Rightarrow> Some Undefined))"

text \<open>\<open>_sort_init\<close>, \<open>sort(comp)\<close> and \<open>sort()\<close>.\<close>

definition priv_sort_init ::
  "('a \<Rightarrow> 'a \<Rightarrow> bool) \<Rightarrow> 'a heap \<Rightarrow> dllist \<Rightarrow> (unit, 'a heap \<times> dllist) outcome option" where
  "priv_sort_init cmp h l =
     (case priv_sort cmp h (head l) (tail l) of
        None \<Rightarrow> None
      | Some (Return sorted_p h1) \<Rightarrow>
          Some (Return () (h1, l\<lparr>head := fst sorted_p, tail := snd sorted_p\<rparr>))
      | Some (Throw m h1) \<Rightarrow> Some (Throw m (h1, l))
      | Some Undefined \<Rightarrow> Some Undefined)"

definition sort_dl ::
  "('a \<Rightarrow> 'a \<Rightarrow> bool) \<Rightarrow> 'a heap \<Rightarrow> dllist \<Rightarrow> (unit, 'a heap \<times> dllist) outcome option" where
  "sort_dl cmp h l = (if head l \<noteq> None then priv_sort_init cmp h l else Some (Return () (h, l)))"

definition sort_default ::
  "('a::ord) heap \<Rightarrow> dllist \<Rightarrow> (unit, 'a heap \<times> dllist) outcome option" where
  "sort_default h l = sort_dl (\<lambda>a b. a < b) h l"

section \<open>Member functions with a second list object\<close>

definition put_list :: "'a state \<Rightarrow> nat \<Rightarrow> dllist \<Rightarrow> 'a state" where
  "put_list s p l = s\<lparr>lists := (lists s)(p \<mapsto> l)\<rparr>"

text \<open>A member function of the previous section called on the object at address
  \<open>this\<close>.\<close>

definition on_this ::
  "nat \<Rightarrow> ('a heap \<Rightarrow> dllist \<Rightarrow> ('r, 'a heap \<times> dllist) outcome option) \<Rightarrow> 'a state
     \<Rightarrow> ('r, 'a state) outcome option" where
  "on_this this f s =
     (case lists s this of None \<Rightarrow> Some Undefined
      | Some l \<Rightarrow>
         (case f (nodes s) l of None \<Rightarrow> None
          | Some (Return r (h1, l1)) \<Rightarrow> Some (Return r (put_list (s\<lparr>nodes := h1\<rparr>) this l1))
          | Some (Throw m (h1, l1)) \<Rightarrow> Some (Throw m (put_list (s\<lparr>nodes := h1\<rparr>) this l1))
          | Some Undefined \<Rightarrow> Some Undefined))"

text \<open>The statements \<open>_head = list._head; _tail = list._tail; _size = list._size;
  list._head = list._tail = nullptr;\<close> shared by the move constructor, the move
  assignment and the first branch of \<open>operator+=(DLList&&)\<close>.\<close>

definition take_over :: "nat \<Rightarrow> nat \<Rightarrow> 'a state \<Rightarrow> (unit, 'a state) outcome option" where
  "take_over this list s =
     (case lists s this of None \<Rightarrow> Some Undefined
      | Some l \<Rightarrow>
         (case lists s list of None \<Rightarrow> Some Undefined
          | Some src \<Rightarrow>
             (let s1 = put_list s this (l\<lparr>head := head src, tail := tail src, size_dl := size_dl src\<rparr>) in
              case lists s1 list of None \<Rightarrow> Some Undefined
              | Some src1 \<Rightarrow> Some (Return () (put_list s1 list (src1\<lparr>head := None, tail := None\<rparr>))))))"

text \<open>\<open>DLList(DLList&& list)\<close>: \<open>this\<close> is the address of the object under construction.\<close>

definition DLList_move :: "nat \<Rightarrow> nat \<Rightarrow> 'a state \<Rightarrow> (unit, 'a state) outcome option" where
  "DLList_move this list s = take_over this list s"

text \<open>\<open>operator=(const DLList& list)\<close> and \<open>operator=(DLList&& list)\<close>; both return
  \<open>*this\<close>.\<close>

definition copy_assign ::
  "'a allocator \<Rightarrow> nat \<Rightarrow> nat \<Rightarrow> 'a state \<Rightarrow> (nat, 'a state) outcome option" where
  "copy_assign alloc this list s =
     then_do (on_this this priv_clear s) (\<lambda>_ s1.
       case lists s1 list of None \<Rightarrow> Some Undefined
       | Some src \<Rightarrow>
          then_do (on_this this (priv_copy_ll alloc (head src)) s1) (\<lambda>_ s2.
            case lists s2 list of None \<Rightarrow> Some Undefined
            | Some src2 \<Rightarrow>
               (case lists s2 this of None \<Rightarrow> Some Undefined
                | Some l2 \<Rightarrow> Some (Return this (put_list s2 this (l2\<lparr>size_dl := size_dl src2\<rparr>))))))"

definition move_assign :: "nat \<Rightarrow> nat \<Rightarrow> 'a state \<Rightarrow> (nat, 'a state) outcome option" where
  "move_assign this list s =
     then_do (on_this this priv_clear s) (\<lambda>_ s1.
       then_do (take_over this list s1) (\<lambda>_ s2. Some (Return this s2)))"

text \<open>\<open>operator+=(DLList&& list)\<close>.\<close>

definition move_append :: "nat \<Rightarrow> nat \<Rightarrow> 'a state \<Rightarrow> (nat, 'a state) outcome option" where
  "move_append this list s =
     (case lists s this of None \<Rightarrow> Some Undefined
      | Some l \<Rightarrow>
         (case lists s list of None \<Rightarrow> Some Undefined
          | Some src \<Rightarrow>
             (if head l = None then
                then_do (take_over this list s) (\<lambda>_ s1. Some (Return this s1))
              else if head src \<noteq> None then
                (case set_next (nodes s) (tail l) (head src) of None \<Rightarrow> Some Undefined
                 | Some h1 \<Rightarrow>
                    (case set_prev h1 (head src) (tail l) of None \<Rightarrow> Some Undefined
                     | Some h2 \<Rightarrow>
                        (let s1 = put_list (s\<lparr>nodes := h2\<rparr>) this (l\<lparr>tail := tail src\<rparr>) in
                         case lists s1 list of None \<Rightarrow> Some Undefined
                         | Some src1 \<Rightarrow>
                            (let s2 = put_list s1 list (src1\<lparr>head := None, tail := None\<rparr>) in
                             case lists s2 this of None \<Rightarrow> Some Undefined
                             | Some l2 \<Rightarrow>
                                (case lists s2 list of None \<Rightarrow> Some Undefined
                                 | Some src2 \<Rightarrow>
                                    Some (Return this
                                      (put_list s2 this (l2\<lparr>size_dl := size_dl l2 + size_dl src2\<rparr>))))))))
              else Some (Return this s))))"

section \<open>Well-formed lists and what they hold\<close>

text \<open>\<open>dlseg h pv as nx\<close>: the nodes at the addresses \<open>as\<close> are live and linked in this
  order in both directions; the \<open>_prev\<close> of the first is \<open>pv\<close> and the \<open>_next\<close> of the
  last is \<open>nx\<close>.\<close>

fun dlseg :: "'a heap \<Rightarrow> ptr \<Rightarrow> nat list \<Rightarrow> ptr \<Rightarrow> bool" where
  "dlseg h pv [] nx = True"
| "dlseg h pv (a # as) nx =
     (case h a of None \<Rightarrow> False
      | Some n \<Rightarrow> prev n = pv \<and> next n = (case as of [] \<Rightarrow> nx | b # _ \<Rightarrow> Some b)
                  \<and> dlseg h (Some a) as nx)"

definition first_ptr :: "nat list \<Rightarrow> ptr" where
  "first_ptr as = (case as of [] \<Rightarrow> None | a # _ \<Rightarrow> Some a)"

definition last_ptr :: "nat list \<Rightarrow> ptr" where
  "last_ptr as = (if as = [] then None else Some (last as))"

text \<open>The invariants of the data model: the list \<open>l\<close> owns exactly the nodes at the
  pairwise different addresses \<open>as\<close>, in this order from \<open>_head\<close> to \<open>_tail\<close>, and
  \<open>_size\<close> is their number.\<close>

definition dllist_ok :: "'a heap \<Rightarrow> dllist \<Rightarrow> nat list \<Rightarrow> bool" where
  "dllist_ok h l as \<longleftrightarrow>
     distinct as \<and> dlseg h None as None \<and> head l = first_ptr as \<and> tail l = last_ptr as
     \<and> length as < 2 ^ 64 \<and> size_dl l = of_nat (length as)"

text \<open>The values held by the nodes at the addresses \<open>as\<close> (all live in a well-formed
  list), in this order.\<close>

definition values_of :: "'a heap \<Rightarrow> nat list \<Rightarrow> 'a list" where
  "values_of h as = map (\<lambda>a. val (the (h a))) as"

text \<open>The positions of an iterator into a list with the nodes \<open>as\<close>: a node of the
  list or the sentinel.\<close>

definition position_of :: "nat list \<Rightarrow> ptr \<Rightarrow> bool" where
  "position_of as p = (case p of None \<Rightarrow> True | Some a \<Rightarrow> a \<in> set as)"

text \<open>A comparator as \<open>sort\<close> requires it: a strict weak ordering.\<close>

definition strict_weak_order :: "('a \<Rightarrow> 'a \<Rightarrow> bool) \<Rightarrow> bool" where
  "strict_weak_order lt \<longleftrightarrow>
     (\<forall>x. \<not> lt x x) \<and> (\<forall>x y z. lt x y \<longrightarrow> lt y z \<longrightarrow> lt x z)
     \<and> (\<forall>x y z. \<not> lt x y \<and> \<not> lt y x \<and> \<not> lt y z \<and> \<not> lt z y \<longrightarrow> \<not> lt x z \<and> \<not> lt z x)"

text \<open>The list function that \<open>_sort\<close> computes on the addresses: the split after
  the first \<open>(n + 1) div 2\<close> elements and the merge that takes from the right only
  when \<open>lt right left\<close>.\<close>

fun merge_lists :: "('b \<Rightarrow> 'b \<Rightarrow> bool) \<Rightarrow> 'b list \<Rightarrow> 'b list \<Rightarrow> 'b list" where
  "merge_lists lt [] ys = ys"
| "merge_lists lt (x # xs) [] = x # xs"
| "merge_lists lt (x # xs) (y # ys) =
     (if lt y x then y # merge_lists lt (x # xs) ys else x # merge_lists lt xs (y # ys))"

function msort :: "('b \<Rightarrow> 'b \<Rightarrow> bool) \<Rightarrow> 'b list \<Rightarrow> 'b list" where
  "msort lt xs =
     (if length xs \<le> 1 then xs
      else merge_lists lt (msort lt (take ((length xs + 1) div 2) xs))
                          (msort lt (drop ((length xs + 1) div 2) xs)))"
  by pat_completeness auto
termination
  by (relation "measure (\<lambda>(lt, xs). length xs)") auto

text \<open>The pointer to the first node of \<open>as\<close>, or \<open>nx\<close> when there is none; the
  pointer to the last node, or \<open>pv\<close>.\<close>

definition first_or :: "ptr \<Rightarrow> nat list \<Rightarrow> ptr" where
  "first_or nx as = (case as of [] \<Rightarrow> nx | b # _ \<Rightarrow> Some b)"

definition last_or :: "ptr \<Rightarrow> nat list \<Rightarrow> ptr" where
  "last_or pv as = (if as = [] then pv else Some (last as))"

text \<open>The position with index \<open>k\<close> in the cyclic order of an iterator: the \<open>k\<close>-th
  node, and the sentinel after the last node.\<close>

definition pos :: "nat list \<Rightarrow> nat \<Rightarrow> ptr" where
  "pos as k = (if k < length as then Some (as ! k) else None)"

text \<open>The store in which the two links of every node at an address in \<open>A\<close> are
  exchanged.\<close>

definition swap_links :: "'a heap \<Rightarrow> nat set \<Rightarrow> 'a heap" where
  "swap_links h A =
     (\<lambda>a. if a \<in> A then map_option (\<lambda>n. n\<lparr>prev := next n, next := prev n\<rparr>) (h a) else h a)"

text \<open>The value held at an address, and the comparator of \<open>sort\<close> read on addresses.\<close>

definition key_of :: "'a heap \<Rightarrow> nat \<Rightarrow> 'a" where
  "key_of h a = val (the (h a))"

definition lt_addr :: "('a \<Rightarrow> 'a \<Rightarrow> bool) \<Rightarrow> 'a heap \<Rightarrow> nat \<Rightarrow> nat \<Rightarrow> bool" where
  "lt_addr cmp h a b = cmp (key_of h a) (key_of h b)"

text \<open>\<open>relinked S h h'\<close>: from \<open>h\<close> to \<open>h'\<close> no node is allocated or deleted, no value
  changes, and only links of nodes at addresses in \<open>S\<close> change.\<close>

definition relinked :: "nat set \<Rightarrow> 'a heap \<Rightarrow> 'a heap \<Rightarrow> bool" where
  "relinked S h h' \<longleftrightarrow>
     (\<forall>a. a \<notin> S \<longrightarrow> h' a = h a) \<and> (\<forall>a. map_option val (h' a) = map_option val (h a))"

text \<open>Two values that the comparator does not order.\<close>

definition equiv_by :: "('b \<Rightarrow> 'b \<Rightarrow> bool) \<Rightarrow> 'b \<Rightarrow> 'b \<Rightarrow> bool" where
  "equiv_by lt x y \<longleftrightarrow> \<not> lt x y \<and> \<not> lt y x"

section \<open>Example states\<close>

text \<open>A store with the single node \<open>5\<close> at address \<open>0\<close>, the list \<open>{5}\<close> that owns
  it, and the members of a list that has lost its nodes but kept \<open>_size = 1\<close>.\<close>

definition one_node :: "nat heap" where
  "one_node = Map.empty(0 \<mapsto> \<lparr>val = 5, prev = None, next = None\<rparr>)"

definition one_list :: dllist where
  "one_list = \<lparr>head = Some 0, tail = Some 0, size_dl = 1\<rparr>"

definition stale_list :: dllist where
  "stale_list = \<lparr>head = None, tail = None, size_dl = 1\<rparr>"

text \<open>Two list objects: an empty list at address \<open>0\<close> and the list \<open>{5}\<close> at address
  \<open>1\<close>; and the state after the nodes of the second have moved to the first.\<close>

definition two_objects :: "nat state" where
  "two_objects = \<lparr>nodes = one_node, lists = Map.empty(0 \<mapsto> DLList, 1 \<mapsto> one_list)\<rparr>"

definition moved_objects :: "nat state" where
  "moved_objects = \<lparr>nodes = one_node, lists = Map.empty(0 \<mapsto> one_list, 1 \<mapsto> stale_list)\<rparr>"

text \<open>One list object \<open>{5}\<close> at address \<open>0\<close>.\<close>

definition self_object :: "nat state" where
  "self_object = \<lparr>nodes = one_node, lists = Map.empty(0 \<mapsto> one_list)\<rparr>"

text \<open>The list \<open>{7, 5}\<close>: the node \<open>7\<close> at address \<open>0\<close> and the node \<open>5\<close> at address \<open>1\<close>.\<close>

definition two_nodes :: "nat heap" where
  "two_nodes = Map.empty(0 \<mapsto> \<lparr>val = 7, prev = None, next = Some 1\<rparr>,
                         1 \<mapsto> \<lparr>val = 5, prev = Some 0, next = None\<rparr>)"

definition two_list :: dllist where
  "two_list = \<lparr>head = Some 0, tail = Some 1, size_dl = 2\<rparr>"

text \<open>The list \<open>{7, 5}\<close> at address \<open>0\<close> and the list \<open>{9}\<close> (its node at address \<open>2\<close>) at
  address \<open>1\<close>; and the state after the second has been appended to the first by
  \<open>operator+=(DLList&&)\<close>.\<close>

definition three_objects :: "nat state" where
  "three_objects = \<lparr>nodes = two_nodes(2 \<mapsto> \<lparr>val = 9, prev = None, next = None\<rparr>),
     lists = Map.empty(0 \<mapsto> two_list, 1 \<mapsto> \<lparr>head = Some 2, tail = Some 2, size_dl = 1\<rparr>)\<rparr>"

definition appended_objects :: "nat state" where
  "appended_objects =
     \<lparr>nodes = Map.empty(0 \<mapsto> \<lparr>val = 7, prev = None, next = Some 1\<rparr>,
                         1 \<mapsto> \<lparr>val = 5, prev = Some 0, next = Some 2\<rparr>,
                         2 \<mapsto> \<lparr>val = 9, prev = Some 1, next = None\<rparr>),
      lists = Map.empty(0 \<mapsto> \<lparr>head = Some 0, tail = Some 2, size_dl = 3\<rparr>, 1 \<mapsto> stale_list)\<rparr>"

section \<open>Rejected calls\<close>

declare fill_loop.simps [simp del] get_back.simps [simp del] get_fwd.simps [simp del]
  msort.simps [simp del]

lemma ref_val_no_throw: "ref_val h n s \<noteq> Throw m s'"
  by (simp add: ref_val_def split: option.splits)

lemma get_back_no_throw: "get_back h l n j \<noteq> Throw m s'"
proof (induction h l n j rule: get_back.induct)
  case (1 h l n j)
  show ?case
    apply (subst get_back.simps)
    using 1 by (auto simp: Let_def ref_val_no_throw split: option.splits)
qed

lemma get_fwd_no_throw: "get_fwd h l n j \<noteq> Throw m s'"
proof (induction h l n j rule: get_fwd.induct)
  case (1 h l n j)
  show ?case
    apply (subst get_fwd.simps)
    using 1 by (auto simp: Let_def ref_val_no_throw split: option.splits)
qed

lemma fill_loop_no_throw: "fill_loop alloc v siz h l \<noteq> Throw m s'"
proof (induction alloc v siz h l rule: fill_loop.induct)
  case (1 alloc v siz h l)
  show ?case
    apply (subst fill_loop.simps)
    using 1 by (auto simp: Let_def split: option.splits prod.splits)
qed

lemma pop_front_throw: "pop_front h l = Throw m s' \<Longrightarrow> s' = (h, l) \<and> head l = None"
  by (auto simp: pop_front_def Let_def split: option.splits if_splits)

lemma pop_back_throw: "pop_back h l = Throw m s' \<Longrightarrow> s' = (h, l) \<and> tail l = None"
  by (auto simp: pop_back_def Let_def split: option.splits if_splits)

lemma erase_throw: "erase this it h l = Throw m s' \<Longrightarrow> s' = (h, l) \<and> ptr_of it = None"
  by (auto simp: erase_def Let_def end_itr_def begin_itr_def
      split: option.splits if_splits outcome.splits prod.splits dest: pop_front_throw)

lemma get_throw: "get_dl i h l = Throw m s' \<Longrightarrow> s' = (h, l)"
  by (auto simp: get_dl_def Let_def get_back_no_throw get_fwd_no_throw split: if_splits)

lemma fill_throw: "DLList_fill alloc siz v h l = Throw m s' \<Longrightarrow> s' = (h, l)"
  by (auto simp: DLList_fill_def Let_def fill_loop_no_throw split: if_splits prod.splits)

lemma sless_pred: "\<not> ((- w - 1 :: 64 word) <s w \<and> - w \<le>s - w - 1)"
proof (cases "sint w = - (2 ^ 63)")
  case True
  have "w = word_of_int (sint w)" by simp
  then have w: "w = word_of_int (- (2 ^ 63))" using True by simp
  show ?thesis unfolding w by (simp add: word_sless_alt word_sle_eq)
next
  case False
  have b: "- (2 ^ 63) \<le> sint w" "sint w < 2 ^ 63"
    using sint_ge [of w] sint_lt [of w] by simp_all
  have n: "sint (- w) = - sint w"
    using b False by (simp add: sint_word_ariths signed_take_bit_int_eq_self)
  have "sint (- w - 1) = - sint w - 1"
    using b False n by (simp add: sint_word_ariths signed_take_bit_int_eq_self)
  then show ?thesis using n by (simp add: word_sless_alt word_sle_eq)
qed

lemma dllist_ok_Nil: "dllist_ok h l [] \<longleftrightarrow> head l = None \<and> tail l = None \<and> size_dl l = 0"
  by (simp add: dllist_ok_def first_ptr_def last_ptr_def)

text \<open>
  C6. Boundary violations raise the error of the check they violate. For every list,
  \<open>get(count)\<close> and \<open>get(-count-1)\<close> throw the error of the range check of \<open>get\<close>
  (the kind \<open>OutOfRange\<close> of the specification); on an empty list \<open>pop_front\<close> and
  \<open>pop_back\<close> throw the error of their check of \<open>_head\<close> and \<open>_tail\<close>
  (\<open>EmptyContainerError\<close>); dereferencing the sentinel iterator throws the error
  of the check of \<open>_ptr\<close> (\<open>DereferenceError\<close>). Every one of them is a
  \<open>std::runtime_error\<close> whose message names the violated check.
\<close>

theorem boundary_errors:
  "get_dl (size_dl l) h l = Throw ''i < (int64_t)_size && i >= -(int64_t)_size'' (h, l)
   \<and> get_dl (- size_dl l - 1) h l = Throw ''i < (int64_t)_size && i >= -(int64_t)_size'' (h, l)
   \<and> (dllist_ok h l [] \<longrightarrow>
        pop_front h l = Throw ''_head'' (h, l) \<and> pop_back h l = Throw ''_tail'' (h, l))
   \<and> itr_deref (end_itr this) s = Throw ''_ptr'' s"
proof -
  have "get_dl (size_dl l) h l = Throw ''i < (int64_t)_size && i >= -(int64_t)_size'' (h, l)"
    by (simp add: get_dl_def)
  moreover have "get_dl (- size_dl l - 1) h l
      = Throw ''i < (int64_t)_size && i >= -(int64_t)_size'' (h, l)"
    unfolding get_dl_def using sless_pred [of "size_dl l"] by (rule if_P)
  moreover have "dllist_ok h l [] \<longrightarrow>
        pop_front h l = Throw ''_head'' (h, l) \<and> pop_back h l = Throw ''_tail'' (h, l)"
    by (simp add: dllist_ok_Nil pop_front_def pop_back_def)
  moreover have "itr_deref (end_itr this) s = Throw ''_ptr'' s"
    by (simp add: itr_deref_def end_itr_def)
  ultimately show ?thesis by blast
qed

theorem boundary_errors_witness:
  "dllist_ok (Map.empty :: nat heap) DLList []
   \<and> pop_front (Map.empty :: nat heap) DLList = Throw ''_head'' (Map.empty, DLList)
   \<and> pop_back (Map.empty :: nat heap) DLList = Throw ''_tail'' (Map.empty, DLList)
   \<and> get_dl 0 (Map.empty :: nat heap) DLList
       = Throw ''i < (int64_t)_size && i >= -(int64_t)_size'' (Map.empty, DLList)
   \<and> get_dl (- 1) (Map.empty :: nat heap) DLList
       = Throw ''i < (int64_t)_size && i >= -(int64_t)_size'' (Map.empty, DLList)
   \<and> itr_deref (end_itr 0) \<lparr>nodes = (Map.empty :: nat heap), lists = Map.empty\<rparr>
       = Throw ''_ptr'' \<lparr>nodes = Map.empty, lists = Map.empty\<rparr>"
proof -
  have ok: "dllist_ok (Map.empty :: nat heap) DLList []"
    by (simp add: dllist_ok_Nil DLList_def)
  have sz: "size_dl DLList = 0" by (simp add: DLList_def)
  show ?thesis
    using ok boundary_errors [where l = DLList and h = "Map.empty :: nat heap" and this = 0
        and s = "\<lparr>nodes = (Map.empty :: nat heap), lists = Map.empty\<rparr>"]
    by (simp add: sz)
qed

text \<open>
  C7. Every operation that rejects its input fails before any mutation: the
  construction with a negative or an over-large size, \<open>get\<close> with an index out of
  range, \<open>pop_front\<close> and \<open>pop_back\<close> on a list without head or tail, and \<open>erase\<close> at
  the sentinel throw in the state they were called in, and whenever one of them
  throws, the node store and the members of the list (head, tail, size, hence the
  elements) are those of before the call.
\<close>

theorem rejected_call_changes_nothing:
  "(\<not> 0 \<le>s siz \<longrightarrow> DLList_fill alloc siz v h l = Throw ''siz >= 0'' (h, l))
   \<and> (0 \<le>s siz \<and> \<not> siz <s 2 ^ 48 \<longrightarrow>
        DLList_fill alloc siz v h l = Throw ''siz < (1LL << 48)'' (h, l))
   \<and> (\<not> (i <s size_dl l \<and> - size_dl l \<le>s i) \<longrightarrow>
        get_dl i h l = Throw ''i < (int64_t)_size && i >= -(int64_t)_size'' (h, l))
   \<and> (head l = None \<longrightarrow> pop_front h l = Throw ''_head'' (h, l))
   \<and> (tail l = None \<longrightarrow> pop_back h l = Throw ''_tail'' (h, l))
   \<and> (ptr_of it = None \<longrightarrow> erase this it h l = Throw ''itr != end()'' (h, l))
   \<and> (\<forall>m s'. DLList_fill alloc siz v h l = Throw m s' \<or> get_dl i h l = Throw m s'
         \<or> pop_front h l = Throw m s' \<or> pop_back h l = Throw m s'
         \<or> erase this it h l = Throw m s' \<longrightarrow> s' = (h, l))"
proof -
  have "\<not> 0 \<le>s siz \<longrightarrow> DLList_fill alloc siz v h l = Throw ''siz >= 0'' (h, l)"
    by (simp add: DLList_fill_def)
  moreover have "0 \<le>s siz \<and> \<not> siz <s 2 ^ 48 \<longrightarrow>
        DLList_fill alloc siz v h l = Throw ''siz < (1LL << 48)'' (h, l)"
    by (simp add: DLList_fill_def)
  moreover have "\<not> (i <s size_dl l \<and> - size_dl l \<le>s i) \<longrightarrow>
        get_dl i h l = Throw ''i < (int64_t)_size && i >= -(int64_t)_size'' (h, l)"
    unfolding get_dl_def by (rule impI) (rule if_P)
  moreover have "head l = None \<longrightarrow> pop_front h l = Throw ''_head'' (h, l)"
    by (simp add: pop_front_def)
  moreover have "tail l = None \<longrightarrow> pop_back h l = Throw ''_tail'' (h, l)"
    by (simp add: pop_back_def)
  moreover have "ptr_of it = None \<longrightarrow> erase this it h l = Throw ''itr != end()'' (h, l)"
    by (simp add: erase_def end_itr_def)
  moreover have "\<forall>m s'. DLList_fill alloc siz v h l = Throw m s' \<or> get_dl i h l = Throw m s'
         \<or> pop_front h l = Throw m s' \<or> pop_back h l = Throw m s'
         \<or> erase this it h l = Throw m s' \<longrightarrow> s' = (h, l)"
    by (auto dest: fill_throw get_throw pop_front_throw pop_back_throw erase_throw)
  ultimately show ?thesis by blast
qed

theorem rejected_call_changes_nothing_witness:
  "\<not> 0 \<le>s (- 1 :: 64 word)
   \<and> DLList_fill (\<lambda>h. 0) (- 1) (7 :: nat) Map.empty DLList = Throw ''siz >= 0'' (Map.empty, DLList)
   \<and> \<not> ((0 :: 64 word) <s size_dl DLList \<and> - size_dl DLList \<le>s 0)
   \<and> get_dl 0 (Map.empty :: nat heap) DLList
       = Throw ''i < (int64_t)_size && i >= -(int64_t)_size'' (Map.empty, DLList)
   \<and> head DLList = None
   \<and> pop_front (Map.empty :: nat heap) DLList = Throw ''_head'' (Map.empty, DLList)
   \<and> tail DLList = None
   \<and> pop_back (Map.empty :: nat heap) DLList = Throw ''_tail'' (Map.empty, DLList)
   \<and> ptr_of (end_itr 0) = None
   \<and> erase 0 (end_itr 0) (Map.empty :: nat heap) DLList = Throw ''itr != end()'' (Map.empty, DLList)"
proof -
  have a: "\<not> 0 \<le>s (- 1 :: 64 word)" by (simp add: word_sle_eq)
  have b: "\<not> ((0 :: 64 word) <s size_dl DLList \<and> - size_dl DLList \<le>s 0)"
    by (simp add: DLList_def)
  have c: "head DLList = None" "tail DLList = None" "ptr_of (end_itr 0) = None"
    by (simp_all add: DLList_def end_itr_def)
  show ?thesis
    using a b c
      rejected_call_changes_nothing [of "- 1" "\<lambda>h. 0" "7 :: nat" Map.empty DLList 0 "end_itr 0" 0]
    by simp
qed

section \<open>Moving from a list and assigning a list to itself\<close>

lemma one_list_ok: "dllist_ok one_node one_list [0]"
  by (simp add: dllist_ok_def one_node_def one_list_def first_ptr_def last_ptr_def)

text \<open>
  C2. The claim is that after move construction, move assignment or \<open>+=\<close> with an
  rvalue list the source is empty, with absent head and tail and size 0, so that it
  equals a default-constructed list. The code resets \<open>list._head\<close> and \<open>list._tail\<close>
  but never \<open>list._size\<close>: moving from the list \<open>{5}\<close> into an empty list, or
  appending the list \<open>{9}\<close> to the list \<open>{7, 5}\<close>, leaves a source with absent head
  and tail whose size is still 1, and \<open>operator==\<close> with a default-constructed list
  returns \<open>false\<close>.
\<close>

theorem move_keeps_source_size:
  "dllist_ok one_node one_list [0]
   \<and> DLList_move 0 1 two_objects = Some (Return () moved_objects)
   \<and> move_assign 0 1 two_objects = Some (Return 0 moved_objects)
   \<and> move_append 0 1 two_objects = Some (Return 0 moved_objects)
   \<and> move_append 0 1 three_objects = Some (Return 0 appended_objects)
   \<and> lists moved_objects 1 = Some stale_list \<and> lists appended_objects 1 = Some stale_list
   \<and> head stale_list = None \<and> tail stale_list = None
   \<and> size_of stale_list = 1 \<and> \<not> empty_dl stale_list
   \<and> equal_dl (nodes moved_objects) stale_list DLList = Some (Return False (nodes moved_objects))"
proof -
  have "DLList_move 0 1 two_objects = Some (Return () moved_objects)"
    by (simp add: DLList_move_def take_over_def two_objects_def moved_objects_def put_list_def
        one_list_def stale_list_def DLList_def Let_def fun_upd_twist)
  moreover have "move_assign 0 1 two_objects = Some (Return 0 moved_objects)"
    by (simp add: move_assign_def on_this_def then_do_def priv_clear.simps take_over_def
        two_objects_def moved_objects_def put_list_def one_list_def stale_list_def DLList_def
        Let_def fun_upd_twist)
  moreover have "move_append 0 1 two_objects = Some (Return 0 moved_objects)"
    by (simp add: move_append_def then_do_def take_over_def two_objects_def moved_objects_def
        put_list_def one_list_def stale_list_def DLList_def Let_def fun_upd_twist)
  moreover have "move_append 0 1 three_objects = Some (Return 0 appended_objects)"
    by (simp add: move_append_def three_objects_def appended_objects_def two_nodes_def
        two_list_def stale_list_def put_list_def set_next_def set_prev_def Let_def fun_upd_twist)
  moreover have "lists moved_objects 1 = Some stale_list"
    "lists appended_objects 1 = Some stale_list"
    by (simp_all add: moved_objects_def appended_objects_def)
  moreover have "head stale_list = None \<and> tail stale_list = None
      \<and> size_of stale_list = 1 \<and> \<not> empty_dl stale_list"
    by (simp add: stale_list_def size_of_def empty_dl_def)
  moreover have "equal_dl (nodes moved_objects) stale_list DLList
      = Some (Return False (nodes moved_objects))"
    by (simp add: equal_dl_def stale_list_def DLList_def)
  ultimately show ?thesis using one_list_ok by blast
qed

text \<open>
  C10. The claim is that \<open>a = a\<close> leaves the list unchanged. The copy assignment
  first deletes the nodes of \<open>*this\<close> and then copies from \<open>list._head\<close>, which for
  \<open>list\<close> = \<open>*this\<close> is \<open>nullptr\<close> by then: assigning the list \<open>{5}\<close> to itself
  deletes its only node and leaves head and tail absent, while \<open>_size\<close> is still 1.
\<close>

theorem self_assignment_loses_elements:
  "dllist_ok one_node one_list [0] \<and> values_of one_node [0] = [5]
   \<and> copy_assign (\<lambda>h. 1) 0 0 self_object
       = Some (Return 0 \<lparr>nodes = Map.empty, lists = Map.empty(0 \<mapsto> stale_list)\<rparr>)
   \<and> head stale_list = None \<and> tail stale_list = None \<and> size_of stale_list = 1"
proof -
  have "copy_assign (\<lambda>h. 1) 0 0 self_object
       = Some (Return 0 \<lparr>nodes = Map.empty, lists = Map.empty(0 \<mapsto> stale_list)\<rparr>)"
    by (simp add: copy_assign_def on_this_def then_do_def priv_clear.simps priv_copy_ll_def
        self_object_def put_list_def one_list_def stale_list_def one_node_def deref_def
        delete_node_def Let_def)
  moreover have "values_of one_node [0] = [5]"
    by (simp add: values_of_def one_node_def)
  moreover have "head stale_list = None \<and> tail stale_list = None \<and> size_of stale_list = 1"
    by (simp add: stale_list_def size_of_def)
  ultimately show ?thesis using one_list_ok by blast
qed

section \<open>Facts about segments\<close>

lemma first_or_simps [simp]: "first_or nx [] = nx" "first_or nx (a # as) = Some a"
  by (simp_all add: first_or_def)

lemma last_or_simps [simp]: "last_or pv [] = pv" "last_or pv (as @ [a]) = Some a"
  "as \<noteq> [] \<Longrightarrow> last_or pv as = Some (last as)"
  by (simp_all add: last_or_def)

lemma last_or_Cons [simp]: "last_or pv (a # as) = last_or (Some a) as"
  by (simp add: last_or_def)

lemma first_or_append: "first_or nx (xs @ ys) = first_or (first_or nx ys) xs"
  by (cases xs) simp_all

lemma first_ptr_eq: "first_ptr as = first_or None as"
  by (simp add: first_ptr_def first_or_def)

lemma last_ptr_eq: "last_ptr as = last_or None as"
  by (simp add: last_ptr_def last_or_def)

lemma dlseg_Cons [simp]:
  "dlseg h pv (a # as) nx \<longleftrightarrow>
     (\<exists>n. h a = Some n \<and> prev n = pv \<and> next n = first_or nx as \<and> dlseg h (Some a) as nx)"
  by (auto simp: first_or_def split: option.splits)

declare dlseg.simps(2) [simp del]

lemma dlseg_append:
  "dlseg h pv (xs @ ys) nx \<longleftrightarrow>
     dlseg h pv xs (first_or nx ys) \<and> dlseg h (last_or pv xs) ys nx"
  by (induction xs arbitrary: pv) (auto simp: first_or_append)

lemma dlseg_live: "dlseg h pv as nx \<Longrightarrow> a \<in> set as \<Longrightarrow> \<exists>n. h a = Some n"
  by (induction as arbitrary: pv) auto

lemma dlseg_frame:
  "(\<forall>a \<in> set as. h' a = h a) \<Longrightarrow> dlseg h' pv as nx = dlseg h pv as nx"
  by (induction as arbitrary: pv) auto

lemma dlseg_nth:
  "dlseg h pv as nx \<Longrightarrow> i < length as \<Longrightarrow>
     \<exists>n. h (as ! i) = Some n \<and> prev n = (if i = 0 then pv else Some (as ! (i - 1)))
        \<and> next n = (if Suc i = length as then nx else Some (as ! Suc i))"
proof (induction as arbitrary: pv i)
  case Nil
  then show ?case by simp
next
  case (Cons a as)
  show ?case
  proof (cases i)
    case 0
    with Cons.prems show ?thesis by (cases as) auto
  next
    case (Suc k)
    with Cons.prems have "dlseg h (Some a) as nx" "k < length as"
      by auto
    from Cons.IH [OF this] Suc show ?thesis by (cases k) auto
  qed
qed

lemma pos_inc:
  assumes "dlseg h None as None" "k < length as"
  shows "\<exists>n. h (as ! k) = Some n \<and> next n = pos as (Suc k)
           \<and> prev n = pos as ((k + length as) mod (length as + 1))"
proof -
  from dlseg_nth [OF assms] obtain n where n: "h (as ! k) = Some n"
    "prev n = (if k = 0 then None else Some (as ! (k - 1)))"
    "next n = (if Suc k = length as then None else Some (as ! Suc k))" by blast
  have "(k + length as) mod (length as + 1) = (if k = 0 then length as else k - 1)"
  proof (cases k)
    case 0 then show ?thesis by simp
  next
    case (Suc j)
    have "k + length as = j + 1 * (length as + 1)" using Suc by simp
    then have "(k + length as) mod (length as + 1) = j mod (length as + 1)"
      by (simp only: mod_mult_self1)
    also have "\<dots> = j" using assms(2) Suc by simp
    finally show ?thesis using Suc by simp
  qed
  with n assms(2) show ?thesis by (auto simp: pos_def)
qed

section \<open>Cyclic iteration\<close>

lemma pos_length [simp]: "pos as (length as) = None"
  by (simp add: pos_def)

lemma pos_first: "pos as 0 = first_ptr as"
  by (cases as) (simp_all add: pos_def first_ptr_def)

lemma pos_last: "pos as ((length as + length as) mod (length as + 1)) = last_ptr as"
proof (cases "as = []")
  case True
  then show ?thesis by (simp add: pos_def last_ptr_def)
next
  case False
  then obtain m where m: "length as = Suc m" by (cases as) auto
  have "length as + length as = m + 1 * (length as + 1)" using m by simp
  then have "(length as + length as) mod (length as + 1) = m mod (length as + 1)"
    by (simp only: mod_mult_self1)
  also have "\<dots> = m" using m by simp
  finally show ?thesis using False m by (simp add: pos_def last_ptr_def last_conv_nth)
qed

lemma position_of_pos: "position_of as p \<longleftrightarrow> (\<exists>k\<le>length as. p = pos as k)"
proof (cases p)
  case None
  then show ?thesis by (auto simp: position_of_def intro: exI [of _ "length as"])
next
  case (Some a)
  then show ?thesis
    by (auto simp: position_of_def pos_def in_set_conv_nth split: if_splits) 
qed

lemma itr_inc_pos:
  assumes "lists s (list_of it) = Some l" "dllist_ok (nodes s) l as" "k \<le> length as"
    "ptr_of it = pos as k"
  shows "itr_inc it s = Return (it\<lparr>ptr_of := pos as (Suc k mod (length as + 1))\<rparr>) s"
proof (cases "k < length as")
  case True
  from assms(2) have "dlseg (nodes s) None as None" by (simp add: dllist_ok_def)
  from pos_inc [OF this True] obtain n where "nodes s (as ! k) = Some n" "next n = pos as (Suc k)"
    by blast
  with assms True show ?thesis by (simp add: itr_inc_def pos_def)
next
  case False
  with assms have k: "k = length as" by simp
  from assms(2) have "head l = pos as 0" by (simp add: dllist_ok_def pos_first)
  with assms k show ?thesis by (simp add: itr_inc_def)
qed

lemma itr_dec_pos:
  assumes "lists s (list_of it) = Some l" "dllist_ok (nodes s) l as" "k \<le> length as"
    "ptr_of it = pos as k"
  shows "itr_dec it s = Return (it\<lparr>ptr_of := pos as ((k + length as) mod (length as + 1))\<rparr>) s"
proof (cases "k < length as")
  case True
  from assms(2) have "dlseg (nodes s) None as None" by (simp add: dllist_ok_def)
  from pos_inc [OF this True] obtain n where "nodes s (as ! k) = Some n"
    "prev n = pos as ((k + length as) mod (length as + 1))"
    by blast
  with assms True show ?thesis by (simp add: itr_dec_def pos_def)
next
  case False
  with assms have k: "k = length as" by simp
  from assms(2) have "tail l = last_ptr as" by (simp add: dllist_ok_def)
  with assms k show ?thesis using pos_last [of as] by (simp add: itr_dec_def)
qed

lemma itr_inc_n_pos:
  assumes "lists s (list_of it) = Some l" "dllist_ok (nodes s) l as" "k \<le> length as"
    "ptr_of it = pos as k"
  shows "itr_inc_n n it s = Return (it\<lparr>ptr_of := pos as ((k + n) mod (length as + 1))\<rparr>) s"
  using assms
proof (induction n arbitrary: k it)
  case 0
  then show ?case by simp
next
  case (Suc n)
  let ?k = "Suc k mod (length as + 1)"
  let ?it = "it\<lparr>ptr_of := pos as ?k\<rparr>"
  have step: "itr_inc it s = Return ?it s" using Suc.prems by (rule itr_inc_pos)
  have "?k \<le> length as" by (simp add: less_Suc_eq_le [symmetric])
  moreover have "ptr_of ?it = pos as ?k" "lists s (list_of ?it) = Some l"
    using Suc.prems by simp_all
  ultimately have "itr_inc_n n ?it s
      = Return (?it\<lparr>ptr_of := pos as ((?k + n) mod (length as + 1))\<rparr>) s"
    using Suc.prems(2) by (intro Suc.IH)
  moreover have "(?k + n) mod (length as + 1) = (k + Suc n) mod (length as + 1)"
  proof -
    have "(?k + n) mod (length as + 1) = (Suc k + n) mod (length as + 1)"
      by (rule mod_add_left_eq)
    also have "Suc k + n = k + Suc n" by simp
    finally show ?thesis .
  qed
  ultimately show ?case using step by simp
qed

lemma itr_dec_n_pos:
  assumes "lists s (list_of it) = Some l" "dllist_ok (nodes s) l as" "k \<le> length as"
    "ptr_of it = pos as k"
  shows "itr_dec_n n it s
     = Return (it\<lparr>ptr_of := pos as ((k + n * length as) mod (length as + 1))\<rparr>) s"
  using assms
proof (induction n arbitrary: k it)
  case 0
  then show ?case by simp
next
  case (Suc n)
  let ?k = "(k + length as) mod (length as + 1)"
  let ?it = "it\<lparr>ptr_of := pos as ?k\<rparr>"
  have step: "itr_dec it s = Return ?it s" using Suc.prems by (rule itr_dec_pos)
  have "?k \<le> length as" by (simp add: less_Suc_eq_le [symmetric])
  moreover have "ptr_of ?it = pos as ?k" "lists s (list_of ?it) = Some l"
    using Suc.prems by simp_all
  ultimately have "itr_dec_n n ?it s
      = Return (?it\<lparr>ptr_of := pos as ((?k + n * length as) mod (length as + 1))\<rparr>) s"
    using Suc.prems(2) by (intro Suc.IH)
  moreover have "(?k + n * length as) mod (length as + 1)
      = (k + Suc n * length as) mod (length as + 1)"
  proof -
    have "(?k + n * length as) mod (length as + 1)
        = (k + length as + n * length as) mod (length as + 1)"
      by (rule mod_add_left_eq)
    also have "k + length as + n * length as = k + Suc n * length as" by simp
    finally show ?thesis .
  qed
  ultimately show ?case using step by simp
qed

lemma cycle_mod: "k \<le> m \<Longrightarrow> ((k + n) mod (m + 1) + n * m) mod (m + 1) = (k::nat)"
proof -
  assume k: "k \<le> m"
  have "((k + n) mod (m + 1) + n * m) mod (m + 1) = (k + n + n * m) mod (m + 1)"
    by (rule mod_add_left_eq)
  also have "k + n + n * m = k + n * (m + 1)" by simp
  also have "(k + n * (m + 1)) mod (m + 1) = k mod (m + 1)" by (simp only: mod_mult_self1) 
  finally show ?thesis using k by simp
qed

lemma cycle_mod2: "k \<le> m \<Longrightarrow> ((k + n * m) mod (m + 1) + n) mod (m + 1) = (k::nat)"
proof -
  assume k: "k \<le> m"
  have "((k + n * m) mod (m + 1) + n) mod (m + 1) = (k + n * m + n) mod (m + 1)"
    by (rule mod_add_left_eq)
  also have "k + n * m + n = k + n * (m + 1)" by simp
  also have "(k + n * (m + 1)) mod (m + 1) = k mod (m + 1)" by (simp only: mod_mult_self1) 
  finally show ?thesis using k by simp
qed

text \<open>
  C8. Iteration is cyclic and symmetric. For a well-formed list and an iterator at any
  of its positions (a node or the sentinel): \<open>n\<close> times \<open>++\<close> followed by \<open>n\<close> times
  \<open>--\<close> returns to the starting position, and so does \<open>n\<close> times \<open>--\<close> followed by
  \<open>n\<close> times \<open>++\<close>; \<open>++\<close> from the last node reaches the sentinel and from the
  sentinel the head; \<open>--\<close> from the head reaches the sentinel and from the sentinel
  the tail; and \<open>count + 1\<close> times \<open>++\<close> from the head returns to the head.
\<close>

theorem cyclic_iteration:
  assumes "lists s (list_of it) = Some l" and "dllist_ok (nodes s) l as"
    and "position_of as (ptr_of it)"
  shows "(\<exists>it'. itr_inc_n n it s = Return it' s \<and> position_of as (ptr_of it')
            \<and> itr_dec_n n it' s = Return it s)
    \<and> (\<exists>it'. itr_dec_n n it s = Return it' s \<and> position_of as (ptr_of it')
            \<and> itr_inc_n n it' s = Return it s)
    \<and> (ptr_of it = tail l \<longrightarrow> itr_inc it s = Return (end_itr (list_of it)) s)
    \<and> (ptr_of it = None \<longrightarrow> itr_inc it s = Return (begin_itr (list_of it) l) s)
    \<and> (ptr_of it = head l \<longrightarrow> itr_dec it s = Return (end_itr (list_of it)) s)
    \<and> (ptr_of it = None \<longrightarrow> itr_dec it s = Return \<lparr>ptr_of = tail l, list_of = list_of it\<rparr> s)
    \<and> itr_inc_n (length as + 1) (begin_itr (list_of it) l) s = Return (begin_itr (list_of it) l) s"
proof -
  let ?m = "length as"
  from assms(3) obtain k where k: "k \<le> ?m" "ptr_of it = pos as k"
    by (auto simp: position_of_pos)
  note base = assms(1,2) k
  have hd: "head l = pos as 0" and tl: "tail l = last_ptr as"
    using assms(2) by (simp_all add: dllist_ok_def pos_first)
  have le: "\<And>j. j mod (?m + 1) \<le> ?m" by (simp add: less_Suc_eq_le [symmetric])
  have upd: "\<And>p. ptr_of it = p \<Longrightarrow> it\<lparr>ptr_of := p\<rparr> = it" by auto
  \<comment> \<open>forth and back\<close>
  let ?k1 = "(k + n) mod (?m + 1)"
  let ?it1 = "it\<lparr>ptr_of := pos as ?k1\<rparr>"
  have f1: "itr_inc_n n it s = Return ?it1 s" using base by (rule itr_inc_n_pos)
  have "itr_dec_n n ?it1 s
      = Return (?it1\<lparr>ptr_of := pos as ((?k1 + n * ?m) mod (?m + 1))\<rparr>) s"
    using assms(1,2) le by (intro itr_dec_n_pos) simp_all
  then have b1: "itr_dec_n n ?it1 s = Return it s"
    using k by (simp only: cycle_mod [OF k(1)]) (simp add: upd)
  have p1: "position_of as (ptr_of ?it1)"
    unfolding position_of_pos by (rule exI [of _ ?k1]) (simp add: less_Suc_eq_le [symmetric])
  \<comment> \<open>back and forth\<close>
  let ?k2 = "(k + n * ?m) mod (?m + 1)"
  let ?it2 = "it\<lparr>ptr_of := pos as ?k2\<rparr>"
  have f2: "itr_dec_n n it s = Return ?it2 s" using base by (rule itr_dec_n_pos)
  have "itr_inc_n n ?it2 s
      = Return (?it2\<lparr>ptr_of := pos as ((?k2 + n) mod (?m + 1))\<rparr>) s"
    using assms(1,2) le by (intro itr_inc_n_pos) simp_all
  then have b2: "itr_inc_n n ?it2 s = Return it s"
    using k by (simp only: cycle_mod2 [OF k(1)]) (simp add: upd)
  have p2: "position_of as (ptr_of ?it2)"
    unfolding position_of_pos by (rule exI [of _ ?k2]) (simp add: less_Suc_eq_le [symmetric])
  \<comment> \<open>single steps at the ends\<close>
  have s1: "ptr_of it = tail l \<longrightarrow> itr_inc it s = Return (end_itr (list_of it)) s"
  proof
    assume t: "ptr_of it = tail l"
    show "itr_inc it s = Return (end_itr (list_of it)) s"
    proof (cases "as = []")
      case True
      with t tl hd assms(1) show ?thesis
        by (simp add: itr_inc_def last_ptr_def pos_def end_itr_def)
    next
      case False
      then have "?m - 1 < ?m" by simp
      moreover have "ptr_of it = pos as (?m - 1)"
        using t tl False by (simp add: last_ptr_def pos_def last_conv_nth)
      ultimately have "itr_inc it s
          = Return (it\<lparr>ptr_of := pos as (Suc (?m - 1) mod (?m + 1))\<rparr>) s"
        using assms(1,2) by (intro itr_inc_pos) simp_all
      with False show ?thesis by (simp add: end_itr_def)
    qed
  qed
  have s2: "ptr_of it = None \<longrightarrow> itr_inc it s = Return (begin_itr (list_of it) l) s"
    using assms(1) by (simp add: itr_inc_def begin_itr_def)
  have s3: "ptr_of it = head l \<longrightarrow> itr_dec it s = Return (end_itr (list_of it)) s"
  proof
    assume t: "ptr_of it = head l"
    then have "ptr_of it = pos as 0" using hd by simp
    then have "itr_dec it s
          = Return (it\<lparr>ptr_of := pos as ((0 + ?m) mod (?m + 1))\<rparr>) s"
      using assms(1,2) by (intro itr_dec_pos) simp_all
    then show "itr_dec it s = Return (end_itr (list_of it)) s" by (simp add: end_itr_def)
  qed
  have s4: "ptr_of it = None \<longrightarrow> itr_dec it s = Return \<lparr>ptr_of = tail l, list_of = list_of it\<rparr> s"
    using assms(1) by (simp add: itr_dec_def)
  \<comment> \<open>once around\<close>
  let ?b = "begin_itr (list_of it) l"
  have "itr_inc_n (?m + 1) ?b s = Return (?b\<lparr>ptr_of := pos as ((0 + (?m + 1)) mod (?m + 1))\<rparr>) s"
    using assms(1,2) hd by (intro itr_inc_n_pos) (simp_all add: begin_itr_def)
  then have s5: "itr_inc_n (?m + 1) ?b s = Return ?b s"
    using hd by (simp add: begin_itr_def)
  from f1 b1 p1 f2 b2 p2 s1 s2 s3 s4 s5 show ?thesis by blast
qed

theorem cyclic_iteration_witness:
  "lists self_object (list_of (begin_itr 0 one_list)) = Some one_list
   \<and> dllist_ok (nodes self_object) one_list [0]
   \<and> position_of [0] (ptr_of (begin_itr 0 one_list))
   \<and> (\<exists>it'. itr_inc_n 3 (begin_itr 0 one_list) self_object = Return it' self_object
          \<and> itr_dec_n 3 it' self_object = Return (begin_itr 0 one_list) self_object)
   \<and> itr_inc_n (length [0 :: nat] + 1) (begin_itr (list_of (begin_itr 0 one_list)) one_list)
         self_object
       = Return (begin_itr (list_of (begin_itr 0 one_list)) one_list) self_object"
proof -
  have a: "lists self_object (list_of (begin_itr 0 one_list)) = Some one_list"
    by (simp add: self_object_def begin_itr_def)
  have b: "dllist_ok (nodes self_object) one_list [0]"
    using one_list_ok by (simp add: self_object_def)
  have c: "position_of [0] (ptr_of (begin_itr 0 one_list))"
    by (simp add: position_of_def begin_itr_def one_list_def)
  show ?thesis
    using a b c cyclic_iteration [OF a b c, of 3] by blast
qed

section \<open>Indexed access\<close>

lemma sint_small:
  "- (2 ^ 63) \<le> x \<Longrightarrow> x < 2 ^ 63 \<Longrightarrow> sint (word_of_int x :: 64 word) = x"
  by (simp add: sint_sbintrunc' signed_take_bit_int_eq_self)

lemma sint_of_nat_small: "n < 2 ^ 63 \<Longrightarrow> sint (of_nat n :: 64 word) = int n"
  using sint_small [of "int n"] by simp

lemma sint_neg_of_nat_small: "n < 2 ^ 63 \<Longrightarrow> sint (- of_nat n :: 64 word) = - int n"
  using sint_small [of "- int n"] by simp

lemma sint_diff_of_nat_small:
  "i < n \<Longrightarrow> n < 2 ^ 63 \<Longrightarrow> sint (of_nat i - of_nat n :: 64 word) = int i - int n"
  using sint_small [of "int i - int n"] by simp

lemma unat_of_nat_small: "n < 2 ^ 64 \<Longrightarrow> unat (of_nat n :: 64 word) = n"
  by (simp add: unat_of_nat)

lemma ref_val_live [simp]: "h a = Some n \<Longrightarrow> ref_val h (Some a) s = Return a s"
  by (simp add: ref_val_def)

lemma deref_Some [simp]: "deref h (Some a) = h a"
  by (simp add: deref_def)

lemma deref_None [simp]: "deref h None = None"
  by (simp add: deref_def)

lemma get_fwd_nth:
  assumes "dlseg h None as None"
  shows "k + unat j < length as \<Longrightarrow>
    get_fwd h l (Some (as ! k)) j = Return (as ! (k + unat j)) (h, l)"
proof (induction "unat j" arbitrary: j k)
  case 0
  then have j: "j = 0" by (simp add: unat_eq_0)
  from 0 have "k < length as" by simp
  from dlseg_nth [OF assms this] obtain n where "h (as ! k) = Some n" by blast
  with j show ?case by (subst get_fwd.simps) simp
next
  case (Suc m)
  then have j: "j \<noteq> 0" by auto
  then have uj: "unat (j - 1) = unat j - 1" by (simp add: unat_minus_one)
  from Suc have "k < length as" "Suc k < length as" by simp_all
  from dlseg_nth [OF assms this(1)] this(2) obtain n where n: "h (as ! k) = Some n"
    "next n = Some (as ! Suc k)" by auto
  have "get_fwd h l (Some (as ! Suc k)) (j - 1) = Return (as ! (Suc k + unat (j - 1))) (h, l)"
    using Suc.prems Suc.hyps(2) uj by (intro Suc.hyps(1)) simp_all
  moreover have "Suc k + unat (j - 1) = k + unat j" using uj Suc.hyps(2) by simp
  ultimately have "get_fwd h l (Some (as ! Suc k)) (j - 1) = Return (as ! (k + unat j)) (h, l)"
    by (simp only:)
  then show ?case using j n by (subst get_fwd.simps) simp
qed

lemma unat_lt64: "unat (w :: 64 word) < 2 ^ 64"
  using unsigned_less [of w, where 'a = nat] by simp

lemma unat_succ:
  "unat j < n \<Longrightarrow> n < 2 ^ 64 \<Longrightarrow> unat (j + 1 :: 64 word) = unat j + 1"
  using unat_add_lem [of j 1] by simp

lemma get_back_nth:
  assumes "dlseg h None as None" "unat (size_dl l) = length as"
  shows "k < length as \<Longrightarrow> unat j < length as \<Longrightarrow> length as - 1 - unat j \<le> k \<Longrightarrow>
    get_back h l (Some (as ! k)) j = Return (as ! (k - (length as - 1 - unat j))) (h, l)"
proof (induction "length as - 1 - unat j" arbitrary: j k)
  case 0
  have len: "length as < 2 ^ 64" using assms(2) unat_lt64 [of "size_dl l"] by simp
  have uj: "unat (j + 1) = unat j + 1" using 0(3) len by (rule unat_succ)
  have cond: "j + 1 < size_dl l \<longleftrightarrow> unat j + 1 < length as"
    using uj assms(2) by (simp add: word_less_nat_alt)
  from dlseg_nth [OF assms(1) 0(2)] obtain n where "h (as ! k) = Some n" by blast
  with 0 cond show ?case by (subst get_back.simps) (simp add: Let_def)
next
  case (Suc d)
  have len: "length as < 2 ^ 64" using assms(2) unat_lt64 [of "size_dl l"] by simp
  have uj: "unat (j + 1) = unat j + 1" using Suc(4) len by (rule unat_succ)
  have cond: "j + 1 < size_dl l \<longleftrightarrow> unat j + 1 < length as"
    using uj assms(2) by (simp add: word_less_nat_alt)
  from Suc have k: "0 < k" and lt: "unat j + 1 < length as" by simp_all
  from dlseg_nth [OF assms(1) Suc(3)] k obtain n where n: "h (as ! k) = Some n"
    "prev n = Some (as ! (k - 1))" by auto
  have "get_back h l (Some (as ! (k - 1))) (j + 1)
      = Return (as ! (k - 1 - (length as - 1 - unat (j + 1)))) (h, l)"
    using Suc uj by (intro Suc(1)) simp_all
  moreover have "k - 1 - (length as - 1 - unat (j + 1)) = k - (length as - 1 - unat j)"
    using uj Suc by simp
  ultimately have "get_back h l (Some (as ! (k - 1))) (j + 1)
      = Return (as ! (k - (length as - 1 - unat j))) (h, l)" by (simp only:)
  with cond lt n show ?case by (subst get_back.simps) (simp add: Let_def)
qed

lemma two_list_ok: "dllist_ok two_nodes two_list [0, 1]"
  by (simp add: dllist_ok_def two_nodes_def two_list_def first_ptr_def last_ptr_def)

lemma dllist_ok_ends:
  assumes "dllist_ok h l as" "as \<noteq> []"
  shows "head l = Some (as ! 0)" "tail l = Some (as ! (length as - 1))"
  using assms by (cases as; simp add: dllist_ok_def first_ptr_def last_ptr_def last_conv_nth)+

lemma get_walk:
  assumes "dllist_ok h l as" "i < length as"
  shows "(if size_dl l div 2 \<le> of_nat i then get_back h l (tail l) (of_nat i)
          else get_fwd h l (head l) (of_nat i)) = Return (as ! i) (h, l)"
proof -
  from assms have ne: "as \<noteq> []" by auto
  from assms(1) have seg: "dlseg h None as None" and len: "length as < 2 ^ 64"
    and sz: "size_dl l = of_nat (length as)" by (simp_all add: dllist_ok_def)
  have usz: "unat (size_dl l) = length as" using sz len by (simp add: unat_of_nat_small)
  have ui: "unat (of_nat i :: 64 word) = i" using assms(2) len by (simp add: unat_of_nat_small)
  have "get_back h l (Some (as ! (length as - 1))) (of_nat i)
      = Return (as ! (length as - 1 - (length as - 1 - unat (of_nat i :: 64 word)))) (h, l)"
    using assms(2) ui by (intro get_back_nth [OF seg usz]) simp_all
  moreover have "length as - 1 - (length as - 1 - i) = i" using assms(2) by simp
  ultimately have b: "get_back h l (tail l) (of_nat i) = Return (as ! i) (h, l)"
    using dllist_ok_ends [OF assms(1) ne] ui by simp
  have "get_fwd h l (Some (as ! 0)) (of_nat i) = Return (as ! (0 + unat (of_nat i :: 64 word))) (h, l)"
    using assms(2) ui by (intro get_fwd_nth [OF seg]) simp
  then have f: "get_fwd h l (head l) (of_nat i) = Return (as ! i) (h, l)"
    using dllist_ok_ends [OF assms(1) ne] ui by simp
  from b f show ?thesis by simp
qed

text \<open>
  C5. For a well-formed list with \<open>count\<close> elements (fewer than \<open>2^63\<close>, as in every
  64-bit address space) and every index \<open>i\<close> in \<open>[0, count)\<close>, \<open>get(i)\<close> and
  \<open>get(i - count)\<close> return a reference to the same element, the one at position \<open>i\<close>
  from the front, whichever end the walk starts from; so \<open>get(-1)\<close> is the last
  element. Neither call changes the list.
\<close>

theorem indexed_access_symmetry:
  assumes "dllist_ok h l as" and "length as < 2 ^ 63" and "i < length as"
  shows "get_dl (of_nat i) h l = Return (as ! i) (h, l)
    \<and> get_dl (of_nat i - of_nat (length as)) h l = Return (as ! i) (h, l)
    \<and> get_dl (- 1) h l = Return (last as) (h, l)"
proof -
  let ?n = "length as"
  from assms(1) have sz: "size_dl l = of_nat ?n" by (simp add: dllist_ok_def)
  have i63: "i < 2 ^ 63" using assms(2,3) by simp
  have s_sz: "sint (size_dl l) = int ?n" "sint (- size_dl l) = - int ?n"
    using assms(2) sz by (simp_all add: sint_of_nat_small sint_neg_of_nat_small)
  have walk: "\<And>k. k < ?n \<Longrightarrow>
      (if size_dl l div 2 \<le> of_nat k then get_back h l (tail l) (of_nat k)
       else get_fwd h l (head l) (of_nat k)) = Return (as ! k) (h, l)"
    using assms(1) by (rule get_walk)
  have pos: "\<And>k. k < ?n \<Longrightarrow> get_dl (of_nat k) h l = Return (as ! k) (h, l)"
  proof -
    fix k assume k: "k < ?n"
    then have "sint (of_nat k :: 64 word) = int k" using assms(2) by (simp add: sint_of_nat_small)
    then have "of_nat k <s size_dl l" "- size_dl l \<le>s of_nat k" "0 \<le>s (of_nat k :: 64 word)"
      using s_sz k by (simp_all add: word_sless_alt word_sle_eq)
    then show "get_dl (of_nat k) h l = Return (as ! k) (h, l)"
      using walk [OF k] by (simp add: get_dl_def Let_def)
  qed
  have neg: "\<And>k. k < ?n \<Longrightarrow> get_dl (of_nat k - of_nat ?n) h l = Return (as ! k) (h, l)"
  proof -
    fix k assume k: "k < ?n"
    let ?w = "of_nat k - of_nat ?n :: 64 word"
    have "sint ?w = int k - int ?n" using k assms(2) by (rule sint_diff_of_nat_small)
    then have c: "?w <s size_dl l" "- size_dl l \<le>s ?w" "\<not> 0 \<le>s ?w"
      using s_sz k by (simp_all add: word_sless_alt word_sle_eq)
    have j: "size_dl l + ?w = of_nat k" using sz by simp
    show "get_dl ?w h l = Return (as ! k) (h, l)"
      using c walk [OF k] unfolding get_dl_def Let_def j by (simp only: if_True if_False simp_thms)
  qed
  from assms(3) have ne: "as \<noteq> []" by auto
  then have l1: "?n - 1 < ?n" by simp
  obtain m where m: "?n = Suc m" using ne by (cases as) auto
  have "(of_nat (?n - 1) :: 64 word) - of_nat ?n = - 1" unfolding m by simp
  with neg [OF l1] have last: "get_dl (- 1) h l = Return (last as) (h, l)"
    using ne by (simp add: last_conv_nth)
  from pos [OF assms(3)] neg [OF assms(3)] last show ?thesis by blast
qed

theorem indexed_access_symmetry_witness:
  "dllist_ok two_nodes two_list [0, 1] \<and> length [0 :: nat, 1] < 2 ^ 63
   \<and> (1 :: nat) < length [0 :: nat, 1]
   \<and> get_dl (of_nat 1) two_nodes two_list = Return ([0, 1] ! 1) (two_nodes, two_list)
   \<and> get_dl (of_nat 1 - of_nat (length [0 :: nat, 1])) two_nodes two_list
       = Return ([0, 1] ! 1) (two_nodes, two_list)
   \<and> get_dl (- 1) two_nodes two_list = Return (last [0, 1]) (two_nodes, two_list)"
proof -
  have a: "dllist_ok two_nodes two_list [0, 1]" by (rule two_list_ok)
  have b: "length [0 :: nat, 1] < 2 ^ 63" by simp
  have c: "(1 :: nat) < length [0 :: nat, 1]" by simp
  show ?thesis using a b c indexed_access_symmetry [OF a b c] by blast
qed

section \<open>Reversal\<close>

lemma last_or_rev: "last_or nx (rev as) = first_or nx as"
  by (cases as) simp_all

lemma first_or_rev: "first_or pv (rev as) = last_or pv as"
  by (induction as arbitrary: pv rule: rev_induct) simp_all

lemma swap_links_empty [simp]: "swap_links h {} = h"
  by (simp add: swap_links_def)

lemma swap_links_insert:
  "h a = Some n \<Longrightarrow> a \<notin> A \<Longrightarrow>
   swap_links (h(a \<mapsto> n\<lparr>prev := next n, next := prev n\<rparr>)) A = swap_links h (insert a A)"
  by (auto simp: swap_links_def fun_eq_iff)

lemma swap_links_twice: "swap_links (swap_links h A) A = h"
proof
  fix a
  show "swap_links (swap_links h A) A a = h a"
    by (cases "h a") (simp_all add: swap_links_def)
qed

lemma dom_swap_links: "dom (swap_links h A) = dom h"
  by (auto simp: swap_links_def dom_def split: if_splits)

lemma val_swap_links: "val (the (swap_links h A a)) = val (the (h a))"
  by (cases "h a") (simp_all add: swap_links_def)

lemma dlseg_swap_links:
  "dlseg h pv as nx \<Longrightarrow> distinct as \<Longrightarrow> dlseg (swap_links h (set as)) nx (rev as) pv"
proof (induction as arbitrary: pv)
  case Nil
  then show ?case by simp
next
  case (Cons a as)
  from Cons.prems obtain n where n: "h a = Some n" "prev n = pv" "next n = first_or nx as"
    and seg: "dlseg h (Some a) as nx" and d: "a \<notin> set as" "distinct as" by auto
  let ?H = "swap_links h (set (a # as))"
  have ih: "dlseg (swap_links h (set as)) nx (rev as) (Some a)" using seg d(2) by (rule Cons.IH)
  have fr: "\<forall>b \<in> set (rev as). ?H b = swap_links h (set as) b"
    using d by (auto simp: swap_links_def)
  have 1: "dlseg ?H nx (rev as) (Some a)"
    using ih dlseg_frame [OF fr, of nx "Some a"] by (simp only:)
  have 2: "dlseg ?H (last_or nx (rev as)) [a] pv"
    using n by (simp add: swap_links_def last_or_rev)
  from 1 2 show ?case by (simp add: dlseg_append)
qed

lemma reverse_loop_swaps:
  "dlseg h None xs nx \<Longrightarrow> distinct xs \<Longrightarrow>
   reverse_loop (last_or None xs) h l = Some (Return () (swap_links h (set xs), l))"
proof (induction xs arbitrary: h nx rule: rev_induct)
  case Nil
  show ?case by (subst reverse_loop.simps) simp
next
  case (snoc a xs)
  from snoc.prems have seg: "dlseg h None xs (Some a)" and a: "dlseg h (last_or None xs) [a] nx"
    and d: "a \<notin> set xs" "distinct xs" by (simp_all add: dlseg_append)
  from a obtain n where n: "h a = Some n" "prev n = last_or None xs" by auto
  let ?n = "n\<lparr>prev := next n, next := prev n\<rparr>"
  let ?h = "h(a \<mapsto> ?n)"
  have "\<forall>b \<in> set xs. ?h b = h b" using d by auto
  then have "dlseg ?h None xs (Some a)" using seg by (simp only: dlseg_frame)
  then have "reverse_loop (last_or None xs) ?h l = Some (Return () (swap_links ?h (set xs), l))"
    using d(2) by (rule snoc.IH)
  then have "reverse_loop (last_or None xs) ?h l
      = Some (Return () (swap_links h (set (xs @ [a])), l))"
    using swap_links_insert [of h a n "set xs"] n(1) d(1) by simp
  then show ?case using n by (subst reverse_loop.simps) (simp add: Let_def)
qed

lemma reverse_ok:
  assumes "dllist_ok h l as"
  shows "reverse h l
      = Some (Return () (swap_links h (set as), l\<lparr>head := tail l, tail := head l\<rparr>))"
    and "dllist_ok (swap_links h (set as)) (l\<lparr>head := tail l, tail := head l\<rparr>) (rev as)"
proof -
  from assms have seg: "dlseg h None as None" and d: "distinct as"
    and hd: "head l = first_ptr as" and tl: "tail l = last_ptr as"
    by (simp_all add: dllist_ok_def)
  show "reverse h l
      = Some (Return () (swap_links h (set as), l\<lparr>head := tail l, tail := head l\<rparr>))"
    using reverse_loop_swaps [OF seg d] tl by (simp add: reverse_def Let_def last_ptr_eq)
  show "dllist_ok (swap_links h (set as)) (l\<lparr>head := tail l, tail := head l\<rparr>) (rev as)"
    using assms dlseg_swap_links [OF seg d]
    by (simp add: dllist_ok_def first_ptr_eq last_ptr_eq first_or_rev last_or_rev)
qed

text \<open>
  C9. For every well-formed list (the empty and the singleton list included)
  \<open>reverse()\<close> returns and leaves a well-formed list of the same nodes in reversed
  order, so that the values are those of before in reversed traversal order; no
  node is allocated or deleted and \<open>_size\<close> is unchanged; and a second \<open>reverse()\<close>
  restores the node store and the members of the list, hence the original sequence.
\<close>

theorem reverse_twice:
  assumes "dllist_ok h l as"
  shows "\<exists>h' l'. reverse h l = Some (Return () (h', l'))
    \<and> dllist_ok h' l' (rev as)
    \<and> values_of h' (rev as) = rev (values_of h as)
    \<and> dom h' = dom h \<and> size_dl l' = size_dl l
    \<and> reverse h' l' = Some (Return () (h, l))"
proof -
  let ?h = "swap_links h (set as)"
  let ?l = "l\<lparr>head := tail l, tail := head l\<rparr>"
  note r1 = reverse_ok [OF assms]
  have "reverse ?h ?l = Some (Return () (swap_links ?h (set (rev as)), ?l\<lparr>head := tail ?l, tail := head ?l\<rparr>))"
    using r1(2) by (rule reverse_ok(1))
  then have r2: "reverse ?h ?l = Some (Return () (h, l))"
    by (simp add: swap_links_twice)
  have v: "values_of ?h (rev as) = rev (values_of h as)"
    by (simp add: values_of_def val_swap_links rev_map)
  from r1 r2 v show ?thesis by (auto simp: dom_swap_links)
qed

theorem reverse_twice_witness:
  "dllist_ok two_nodes two_list [0, 1]
   \<and> (\<exists>h' l'. reverse two_nodes two_list = Some (Return () (h', l'))
        \<and> dllist_ok h' l' (rev [0, 1])
        \<and> values_of h' (rev [0, 1]) = rev (values_of two_nodes [0, 1])
        \<and> reverse h' l' = Some (Return () (two_nodes, two_list)))"
  using two_list_ok reverse_twice [OF two_list_ok] by blast

section \<open>Insertion\<close>

lemma dlseg_upd_other [simp]:
  "a \<notin> set as \<Longrightarrow> dlseg (h(a := x)) pv as nx = dlseg h pv as nx"
  by (rule dlseg_frame) auto

lemma values_of_Cons [simp]: "values_of h (a # as) = val (the (h a)) # values_of h as"
  by (simp add: values_of_def)

lemma values_of_append [simp]: "values_of h (xs @ ys) = values_of h xs @ values_of h ys"
  by (simp add: values_of_def)

lemma values_of_Nil [simp]: "values_of h [] = []"
  by (simp add: values_of_def)

lemma values_of_upd_other [simp]:
  "a \<notin> set as \<Longrightarrow> values_of (h(a := x)) as = values_of h as"
  by (simp add: values_of_def)

lemma new_node_eq [simp]: "new_node alloc h n = (alloc h, h(alloc h \<mapsto> n))"
  by (simp add: new_node_def Let_def)

lemma set_prev_Some [simp]:
  "h a = Some n \<Longrightarrow> set_prev h (Some a) q = Some (h(a \<mapsto> n\<lparr>prev := q\<rparr>))"
  by (simp add: set_prev_def)

lemma set_next_Some [simp]:
  "h a = Some n \<Longrightarrow> set_next h (Some a) q = Some (h(a \<mapsto> n\<lparr>next := q\<rparr>))"
  by (simp add: set_next_def)

lemma delete_node_Some [simp]:
  "h a = Some n \<Longrightarrow> delete_node h (Some a) = Some (h(a := None))"
  by (simp add: delete_node_def)

lemma push_front_ok:
  assumes "dllist_ok h l as" and "h (alloc h) = None" and "length as + 1 < 2 ^ 64"
  shows "\<exists>h' l'. push_front alloc v h l = Return () (h', l')
    \<and> dllist_ok h' l' (alloc h # as)
    \<and> values_of h' (alloc h # as) = v # values_of h as
    \<and> (\<forall>b. b \<noteq> alloc h \<and> b \<notin> set as \<longrightarrow> h' b = h b)"
proof (cases as)
  case Nil
  with assms show ?thesis
    by (simp add: push_front_def dllist_ok_def first_ptr_def last_ptr_def mk_node_def)
next
  case (Cons b bs)
  let ?a = "alloc h"
  from assms(1) Cons obtain nb where nb: "h b = Some nb" "prev nb = None"
    "next nb = first_or None bs" and seg: "dlseg h (Some b) bs None"
    and d: "b \<notin> set bs" "distinct bs" and hd: "head l = Some b"
    and tl: "tail l = Some (last (b # bs))" and sz: "size_dl l = of_nat (length as)"
    by (auto simp: dllist_ok_def first_ptr_def last_ptr_def)
  have ab: "?a \<noteq> b" using nb assms(2) by auto
  have fresh: "?a \<notin> set bs" using dlseg_live [OF seg, of ?a] assms(2) by auto
  let ?h = "h(?a \<mapsto> mk_node v None (Some b), b \<mapsto> nb\<lparr>prev := Some ?a\<rparr>)"
  let ?l = "l\<lparr>head := Some ?a, size_dl := size_dl l + 1\<rparr>"
  have r: "push_front alloc v h l = Return () (?h, ?l)"
    using hd nb ab by (simp add: push_front_def)
  have "dlseg ?h None (?a # b # bs) None"
    using nb seg d ab fresh by (simp add: mk_node_def)
  then have ok: "dllist_ok ?h ?l (?a # as)"
    using assms(1,3) Cons ab fresh d tl sz
    by (simp add: dllist_ok_def first_ptr_def last_ptr_def)
  have v: "values_of ?h (?a # as) = v # values_of h as"
    using Cons nb ab fresh d by (simp add: mk_node_def)
  have o: "\<forall>c. c \<noteq> ?a \<and> c \<notin> set as \<longrightarrow> ?h c = h c" using Cons by simp
  from r ok v o show ?thesis by blast
qed

lemma push_back_ok:
  assumes "dllist_ok h l as" and "h (alloc h) = None" and "length as + 1 < 2 ^ 64"
  shows "\<exists>h' l'. push_back alloc v h l = Return () (h', l')
    \<and> dllist_ok h' l' (as @ [alloc h]) \<and> tail l' = Some (alloc h)
    \<and> values_of h' (as @ [alloc h]) = values_of h as @ [v]
    \<and> (\<forall>b. b \<noteq> alloc h \<and> b \<notin> set as \<longrightarrow> h' b = h b)"
proof (cases as rule: rev_cases)
  case Nil
  with assms show ?thesis
    by (simp add: push_back_def dllist_ok_def first_ptr_def last_ptr_def mk_node_def)
next
  case (snoc xs t)
  let ?a = "alloc h"
  from assms(1) snoc have seg: "dlseg h None xs (Some t)"
    and t: "dlseg h (last_or None xs) [t] None"
    and d: "t \<notin> set xs" "distinct xs" and hd: "head l = first_ptr (xs @ [t])"
    and tl: "tail l = Some t" and sz: "size_dl l = of_nat (length as)"
    by (auto simp: dllist_ok_def last_ptr_def dlseg_append)
  from t obtain nt where nt: "h t = Some nt" "prev nt = last_or None xs" "next nt = None"
    by auto
  have hdn: "head l \<noteq> None" using hd by (cases xs) (simp_all add: first_ptr_def)
  have ab: "?a \<noteq> t" using nt assms(2) by auto
  have fresh: "?a \<notin> set xs" using dlseg_live [OF seg, of ?a] assms(2) by auto
  let ?h = "h(?a \<mapsto> mk_node v (Some t) None, t \<mapsto> nt\<lparr>next := Some ?a\<rparr>)"
  let ?l = "l\<lparr>tail := Some ?a, size_dl := size_dl l + 1\<rparr>"
  have r: "push_back alloc v h l = Return () (?h, ?l)"
    using hdn tl nt ab by (auto simp: push_back_def)
  have "dlseg ?h None ((xs @ [t]) @ [?a]) None"
    using nt seg d ab fresh by (simp add: mk_node_def dlseg_append)
  then have ok: "dllist_ok ?h ?l (as @ [?a])"
    using assms(1,3) snoc ab fresh d hd sz
    by (cases xs) (simp_all add: dllist_ok_def first_ptr_def last_ptr_def)
  have v: "values_of ?h (as @ [?a]) = values_of h as @ [v]"
    using snoc nt ab fresh d by (simp add: mk_node_def)
  have o: "\<forall>c. c \<noteq> ?a \<and> c \<notin> set as \<longrightarrow> ?h c = h c" using snoc by simp
  from r ok v o show ?thesis by auto
qed

lemma insert_interior_ok:
  assumes "dllist_ok h l (xs @ p # c # ys)" and "h (alloc h) = None"
    and "length (xs @ p # c # ys) + 1 < 2 ^ 64" and "ptr_of it = Some c"
  shows "\<exists>h' l'. insert_dl alloc this it v h l = Return \<lparr>ptr_of = Some (alloc h), list_of = this\<rparr> (h', l')
    \<and> dllist_ok h' l' (xs @ p # alloc h # c # ys)
    \<and> values_of h' (xs @ p # alloc h # c # ys)
        = values_of h (xs @ [p]) @ v # values_of h (c # ys)
    \<and> (\<forall>b. b \<noteq> alloc h \<and> b \<notin> set (xs @ p # c # ys) \<longrightarrow> h' b = h b)"
proof -
  let ?a = "alloc h"
  let ?as = "xs @ p # c # ys"
  from assms(1) have seg: "dlseg h None ?as None" and d: "distinct ?as"
    and hd: "head l = first_ptr ?as" and tl: "tail l = last_ptr ?as"
    and sz: "size_dl l = of_nat (length ?as)" by (simp_all add: dllist_ok_def)
  from seg have sx: "dlseg h None xs (Some p)" and sp: "dlseg h (last_or None xs) [p] (Some c)"
    and sc: "dlseg h (Some p) (c # ys) None"
    by (auto simp: dlseg_append)
  from sp obtain np where np: "h p = Some np" "prev np = last_or None xs" "next np = Some c"
    by auto
  from sc obtain nc where nc: "h c = Some nc" "prev nc = Some p" "next nc = first_or None ys"
    and sy: "dlseg h (Some c) ys None" by auto
  have fr: "?a \<noteq> p" "?a \<noteq> c" "?a \<notin> set xs" "?a \<notin> set ys"
    using np nc assms(2) dlseg_live [OF sx, of ?a] dlseg_live [OF sy, of ?a] by auto
  have nh: "ptr_of it \<noteq> head l" using hd assms(4) d by (cases xs) (auto simp: first_ptr_def)
  let ?h = "h(?a \<mapsto> mk_node v (Some p) (Some c), p \<mapsto> np\<lparr>next := Some ?a\<rparr>,
              c \<mapsto> nc\<lparr>prev := Some ?a\<rparr>)"
  let ?l = "l\<lparr>size_dl := size_dl l + 1\<rparr>"
  have pc: "p \<noteq> c" using d by auto
  have r: "insert_dl alloc this it v h l = Return \<lparr>ptr_of = Some ?a, list_of = this\<rparr> (?h, ?l)"
    using nh assms(4) np nc fr pc
    by (simp add: insert_dl_def begin_itr_def end_itr_def Let_def)
  have "dlseg ?h None (xs @ [p] @ ?a # c # ys) None"
    using np nc sx sy d fr pc by (simp add: dlseg_append mk_node_def)
  then have ok: "dllist_ok ?h ?l (xs @ p # ?a # c # ys)"
    using assms(3) d fr hd tl sz
    by (cases xs) (simp_all add: dllist_ok_def first_ptr_def last_ptr_def)
  have v: "values_of ?h (xs @ p # ?a # c # ys) = values_of h (xs @ [p]) @ v # values_of h (c # ys)"
    using np nc d fr pc by (simp add: mk_node_def)
  have o: "\<forall>b. b \<noteq> ?a \<and> b \<notin> set ?as \<longrightarrow> ?h b = h b" by simp
  from r ok v o show ?thesis by blast
qed

lemma split_at_interior:
  assumes "0 < k" "k < length as"
  shows "as = take (k - 1) as @ as ! (k - 1) # as ! k # drop (Suc k) as"
    and "take k as = take (k - 1) as @ [as ! (k - 1)]"
    and "drop k as = as ! k # drop (Suc k) as"
proof -
  from assms obtain j where j: "k = Suc j" by (cases k) auto
  show 3: "drop k as = as ! k # drop (Suc k) as"
    using assms by (simp add: Cons_nth_drop_Suc)
  show 2: "take k as = take (k - 1) as @ [as ! (k - 1)]"
    using assms j by (simp add: take_Suc_conv_app_nth)
  have "as = take k as @ drop k as" by simp
  then show "as = take (k - 1) as @ as ! (k - 1) # as ! k # drop (Suc k) as"
    unfolding 2 3 by simp
qed

text \<open>
  C4. For a well-formed list and an iterator at any of its positions (the node with
  index \<open>k\<close>, or the sentinel for \<open>k = count\<close>), \<open>insert(position, value)\<close> allocates
  one node, links it immediately before the position, increments the count by one,
  leaves all other nodes in their order with their values, and returns an iterator
  to the new node in every case; before the head it does what \<open>push_front\<close> does and
  at the sentinel what \<open>push_back\<close> does. The allocator returns an address that is
  not in use, and the count stays below \<open>2^64\<close>.
\<close>

theorem insert_before_position:
  assumes "dllist_ok h l as" and "k \<le> length as" and "ptr_of it = pos as k"
    and "h (alloc h) = None" and "length as + 1 < 2 ^ 64"
  shows "\<exists>h' l'. insert_dl alloc this it v h l
        = Return \<lparr>ptr_of = Some (alloc h), list_of = this\<rparr> (h', l')
    \<and> dllist_ok h' l' (take k as @ alloc h # drop k as)
    \<and> values_of h' (take k as @ alloc h # drop k as)
        = take k (values_of h as) @ v # drop k (values_of h as)
    \<and> size_dl l' = size_dl l + 1
    \<and> (\<forall>b. b \<noteq> alloc h \<and> b \<notin> set as \<longrightarrow> h' b = h b)
    \<and> (k = 0 \<longrightarrow> push_front alloc v h l = Return () (h', l'))
    \<and> (k = length as \<longrightarrow> push_back alloc v h l = Return () (h', l'))"
proof -
  let ?a = "alloc h"
  from assms(1) have hd: "head l = first_ptr as" and sz: "size_dl l = of_nat (length as)"
    by (simp_all add: dllist_ok_def)
  have szr: "\<And>h' l' bs. dllist_ok h' l' bs \<Longrightarrow> length bs = Suc (length as) \<Longrightarrow>
      size_dl l' = size_dl l + 1"
    using sz by (simp add: dllist_ok_def)
  consider (front) "k = 0" | (sentinel) "k = length as" "0 < k" | (inner) "0 < k" "k < length as"
    using assms(2) by linarith
  then show ?thesis
  proof cases
    case front
    from push_front_ok [of h l as alloc v] assms(1,4,5) obtain h' l' where
      r: "push_front alloc v h l = Return () (h', l')" and ok: "dllist_ok h' l' (?a # as)"
      and v: "values_of h' (?a # as) = v # values_of h as"
      and o: "\<forall>b. b \<noteq> ?a \<and> b \<notin> set as \<longrightarrow> h' b = h b" by blast
    have "ptr_of it = head l" using assms(3) hd front by (simp add: pos_first)
    then have "insert_dl alloc this it v h l = Return (begin_itr this l') (h', l')"
      using r by (simp add: insert_dl_def begin_itr_def)
    moreover have "begin_itr this l' = \<lparr>ptr_of = Some ?a, list_of = this\<rparr>"
      using ok by (simp add: begin_itr_def dllist_ok_def first_ptr_def)
    moreover have "k = length as \<longrightarrow> push_back alloc v h l = Return () (h', l')"
      using front r assms(1) by (auto simp: push_back_def push_front_def dllist_ok_def first_ptr_def)
    ultimately show ?thesis
      using front r ok v o szr [OF ok] by auto
  next
    case sentinel
    from push_back_ok [of h l as alloc v] assms(1,4,5) obtain h' l' where
      r: "push_back alloc v h l = Return () (h', l')" and ok: "dllist_ok h' l' (as @ [?a])"
      and t: "tail l' = Some ?a"
      and v: "values_of h' (as @ [?a]) = values_of h as @ [v]"
      and o: "\<forall>b. b \<noteq> ?a \<and> b \<notin> set as \<longrightarrow> h' b = h b" by blast
    have p: "ptr_of it = None" using assms(3) sentinel by simp
    have "head l \<noteq> None" using hd sentinel by (cases as) (simp_all add: first_ptr_def)
    then have "insert_dl alloc this it v h l = Return \<lparr>ptr_of = tail l', list_of = this\<rparr> (h', l')"
      using r p by (auto simp: insert_dl_def begin_itr_def end_itr_def)
    then show ?thesis
      using sentinel r ok v o t szr [OF ok] by (auto simp: values_of_def)
  next
    case inner
    note sp = split_at_interior [OF inner]
    let ?xs = "take (k - 1) as" and ?p = "as ! (k - 1)" and ?c = "as ! k"
      and ?ys = "drop (Suc k) as"
    have ok0: "dllist_ok h l (?xs @ ?p # ?c # ?ys)" using assms(1) sp(1) by simp
    have len: "length (?xs @ ?p # ?c # ?ys) + 1 < 2 ^ 64" using assms(5) sp(1) by simp
    have p: "ptr_of it = Some ?c" using assms(3) inner by (simp add: pos_def)
    from insert_interior_ok [of h l ?xs ?p ?c ?ys alloc it this v] ok0 assms(4) len p obtain h' l' where
      r: "insert_dl alloc this it v h l = Return \<lparr>ptr_of = Some ?a, list_of = this\<rparr> (h', l')"
      and ok: "dllist_ok h' l' (?xs @ ?p # ?a # ?c # ?ys)"
      and v: "values_of h' (?xs @ ?p # ?a # ?c # ?ys)
          = values_of h (?xs @ [?p]) @ v # values_of h (?c # ?ys)"
      and o: "\<forall>b. b \<noteq> ?a \<and> b \<notin> set (?xs @ ?p # ?c # ?ys) \<longrightarrow> h' b = h b" by blast
    have e: "take k as @ ?a # drop k as = ?xs @ ?p # ?a # ?c # ?ys"
      unfolding sp(2,3) by simp
    have v': "values_of h' (take k as @ ?a # drop k as)
        = take k (values_of h as) @ v # drop k (values_of h as)"
      unfolding e v by (simp only: sp(2,3) [symmetric]) (simp add: values_of_def take_map drop_map)
    have sa: "set (?xs @ ?p # ?c # ?ys) = set as" by (rule arg_cong [OF sp(1) [symmetric]])
    have o': "\<forall>b. b \<noteq> ?a \<and> b \<notin> set as \<longrightarrow> h' b = h b" using o unfolding sa .
    have "length (take k as @ ?a # drop k as) = Suc (length as)" using inner by simp
    with r ok v' o' e inner szr [of h' l' "take k as @ ?a # drop k as"] show ?thesis
      by auto
  qed
qed

theorem insert_before_position_witness:
  "dllist_ok two_nodes two_list [0, 1] \<and> (1 :: nat) \<le> length [0 :: nat, 1]
   \<and> ptr_of \<lparr>ptr_of = Some 1, list_of = 0\<rparr> = pos [0, 1] 1
   \<and> two_nodes ((\<lambda>h. 2) two_nodes) = None \<and> length [0 :: nat, 1] + 1 < 2 ^ 64
   \<and> (\<exists>h' l'. insert_dl (\<lambda>h. 2) 0 \<lparr>ptr_of = Some 1, list_of = 0\<rparr> 6 two_nodes two_list
          = Return \<lparr>ptr_of = Some 2, list_of = 0\<rparr> (h', l')
        \<and> dllist_ok h' l' [0, 2, 1]
        \<and> values_of h' [0, 2, 1] = [7, 6, 5])"
proof -
  have a: "dllist_ok two_nodes two_list [0, 1]" by (rule two_list_ok)
  have b: "(1 :: nat) \<le> length [0 :: nat, 1]" by simp
  have c: "ptr_of \<lparr>ptr_of = Some 1, list_of = 0\<rparr> = pos [0, 1] 1" by (simp add: pos_def)
  have d: "two_nodes ((\<lambda>h. 2) two_nodes) = None" by (simp add: two_nodes_def)
  have e: "length [0 :: nat, 1] + 1 < 2 ^ 64" by simp
  have v: "values_of two_nodes [0, 1] = [7, 5]" by (simp add: two_nodes_def)
  from insert_before_position [of two_nodes two_list "[0, 1]" 1
      "\<lparr>ptr_of = Some 1, list_of = 0\<rparr>" "\<lambda>h. 2" 0 6] a b c d e
  obtain h' l' where "insert_dl (\<lambda>h. 2) 0 \<lparr>ptr_of = Some 1, list_of = 0\<rparr> 6 two_nodes two_list
          = Return \<lparr>ptr_of = Some 2, list_of = 0\<rparr> (h', l')"
    "dllist_ok h' l' (take 1 [0, 1] @ 2 # drop 1 [0, 1])"
    "values_of h' (take 1 [0, 1] @ 2 # drop 1 [0, 1])
      = take 1 (values_of two_nodes [0, 1]) @ 6 # drop 1 (values_of two_nodes [0, 1])"
    by blast
  then show ?thesis using a b c d e v by simp
qed

section \<open>Erasure\<close>

lemma pop_front_ok:
  assumes "dllist_ok h l (b # bs)"
  shows "\<exists>h' l'. pop_front h l = Return (val (the (h b))) (h', l')
    \<and> dllist_ok h' l' bs \<and> values_of h' bs = values_of h bs
    \<and> h' b = None \<and> (\<forall>c. c \<notin> set (b # bs) \<longrightarrow> h' c = h c)"
proof -
  from assms obtain nb where nb: "h b = Some nb" "prev nb = None" "next nb = first_or None bs"
    and seg: "dlseg h (Some b) bs None" and d: "b \<notin> set bs" "distinct bs"
    and hd: "head l = Some b" and tl: "tail l = Some (last (b # bs))"
    and sz: "size_dl l = of_nat (length (b # bs))" and len: "length (b # bs) < 2 ^ 64"
    by (auto simp: dllist_ok_def first_ptr_def last_ptr_def)
  show ?thesis
  proof (cases bs)
    case Nil
    with nb hd sz show ?thesis
      by (simp add: pop_front_def Let_def dllist_ok_def first_ptr_def last_ptr_def)
  next
    case (Cons c cs)
    with seg obtain nc where nc: "h c = Some nc" "prev nc = Some b" "next nc = first_or None cs"
      and sc: "dlseg h (Some c) cs None" by auto
    have bc: "b \<noteq> c" "c \<notin> set cs" "b \<notin> set cs" using d Cons by auto
    let ?h = "h(b := None, c \<mapsto> nc\<lparr>prev := None\<rparr>)"
    let ?l = "l\<lparr>head := Some c, size_dl := size_dl l - 1\<rparr>"
    have r: "pop_front h l = Return (val (the (h b))) (?h, ?l)"
      using nb nc hd Cons bc by (simp add: pop_front_def Let_def)
    have "dlseg ?h None (c # cs) None" using nc sc bc by simp
    then have ok: "dllist_ok ?h ?l bs"
      using Cons d tl sz len by (simp add: dllist_ok_def first_ptr_def last_ptr_def)
    have v: "values_of ?h bs = values_of h bs" using Cons nc bc by simp
    from r ok v bc Cons show ?thesis by auto
  qed
qed

lemma erase_tail_ok:
  assumes "dllist_ok h l (xs @ [p, t])" and "ptr_of it = Some t"
  shows "\<exists>h' l'. erase this it h l = Return (end_itr this) (h', l')
    \<and> dllist_ok h' l' (xs @ [p]) \<and> values_of h' (xs @ [p]) = values_of h (xs @ [p])
    \<and> h' t = None \<and> (\<forall>c. c \<notin> set (xs @ [p, t]) \<longrightarrow> h' c = h c)"
proof -
  let ?as = "xs @ [p, t]"
  from assms(1) have seg: "dlseg h None ?as None" and d: "distinct ?as"
    and hd: "head l = first_ptr ?as" and tl: "tail l = Some t"
    and sz: "size_dl l = of_nat (length ?as)" and len: "length ?as < 2 ^ 64"
    by (simp_all add: dllist_ok_def last_ptr_def)
  from seg have sx: "dlseg h None xs (Some p)" and sp: "dlseg h (last_or None xs) [p] (Some t)"
    and st: "dlseg h (Some p) [t] None"
    by (auto simp: dlseg_append)
  from sp obtain np where np: "h p = Some np" "prev np = last_or None xs" "next np = Some t"
    by auto
  from st obtain nt where nt: "h t = Some nt" "prev nt = Some p" "next nt = None" by auto
  have ne: "p \<noteq> t" "p \<notin> set xs" "t \<notin> set xs" using d by auto
  have nh: "ptr_of it \<noteq> head l" using hd assms(2) ne by (cases xs) (auto simp: first_ptr_def)
  let ?h = "h(p \<mapsto> np\<lparr>next := None\<rparr>, t := None)"
  let ?l = "l\<lparr>size_dl := size_dl l - 1, tail := Some p\<rparr>"
  have r: "erase this it h l = Return (end_itr this) (?h, ?l)"
    using nh assms(2) tl np nt ne
    by (simp add: erase_def begin_itr_def end_itr_def Let_def)
  have "dlseg ?h None (xs @ [p]) None" using sx np ne by (simp add: dlseg_append)
  then have ok: "dllist_ok ?h ?l (xs @ [p])"
    using d hd sz len by (cases xs) (simp_all add: dllist_ok_def first_ptr_def last_ptr_def)
  have v: "values_of ?h (xs @ [p]) = values_of h (xs @ [p])" using np ne by simp
  from r ok v show ?thesis by auto
qed

lemma erase_interior_ok:
  assumes "dllist_ok h l (xs @ p # c # n # ys)" and "ptr_of it = Some c"
  shows "\<exists>h' l'. erase this it h l = Return \<lparr>ptr_of = Some n, list_of = this\<rparr> (h', l')
    \<and> dllist_ok h' l' (xs @ p # n # ys)
    \<and> values_of h' (xs @ p # n # ys) = values_of h (xs @ p # n # ys)
    \<and> h' c = None \<and> (\<forall>b. b \<notin> set (xs @ p # c # n # ys) \<longrightarrow> h' b = h b)"
proof -
  let ?as = "xs @ p # c # n # ys"
  from assms(1) have seg: "dlseg h None ?as None" and d: "distinct ?as"
    and hd: "head l = first_ptr ?as" and tl: "tail l = last_ptr ?as"
    and sz: "size_dl l = of_nat (length ?as)" and len: "length ?as < 2 ^ 64"
    by (simp_all add: dllist_ok_def)
  from seg have sx: "dlseg h None xs (Some p)" and sp: "dlseg h (last_or None xs) [p] (Some c)"
    and sc: "dlseg h (Some p) [c] (Some n)" and sn: "dlseg h (Some c) (n # ys) None"
    by (auto simp: dlseg_append)
  from sp obtain np where np: "h p = Some np" "prev np = last_or None xs" "next np = Some c"
    by auto
  from sc obtain nc where nc: "h c = Some nc" "prev nc = Some p" "next nc = Some n" by auto
  from sn obtain nn where nn: "h n = Some nn" "prev nn = Some c" "next nn = first_or None ys"
    and sy: "dlseg h (Some n) ys None" by auto
  have ne: "p \<noteq> c" "p \<noteq> n" "c \<noteq> n" "p \<notin> set xs" "c \<notin> set xs" "n \<notin> set xs"
    "p \<notin> set ys" "c \<notin> set ys" "n \<notin> set ys" using d by auto
  have nh: "ptr_of it \<noteq> head l" using hd assms(2) ne by (cases xs) (auto simp: first_ptr_def)
  have nt: "ptr_of it \<noteq> tail l" using tl assms(2) ne by (auto simp: last_ptr_def)
  let ?h = "h(p \<mapsto> np\<lparr>next := Some n\<rparr>, n \<mapsto> nn\<lparr>prev := Some p\<rparr>, c := None)"
  let ?l = "l\<lparr>size_dl := size_dl l - 1\<rparr>"
  have r: "erase this it h l = Return \<lparr>ptr_of = Some n, list_of = this\<rparr> (?h, ?l)"
    using nh nt assms(2) np nc nn ne
    by (simp add: erase_def begin_itr_def end_itr_def Let_def)
  have "dlseg ?h None (xs @ [p] @ n # ys) None"
    using sx sy np nn ne by (simp add: dlseg_append)
  then have ok: "dllist_ok ?h ?l (xs @ p # n # ys)"
    using d hd tl sz len by (cases xs) (simp_all add: dllist_ok_def first_ptr_def last_ptr_def)
  have v: "values_of ?h (xs @ p # n # ys) = values_of h (xs @ p # n # ys)"
    using np nn ne by simp
  from r ok v show ?thesis by auto
qed

lemma values_of_take_drop:
  "values_of h (take k as @ drop j as) = take k (values_of h as) @ drop j (values_of h as)"
  by (simp add: values_of_def take_map drop_map)

lemma erase_throw_iff: "(\<exists>m s. erase this it h l = Throw m s) \<longleftrightarrow> ptr_of it = None"
proof
  assume "\<exists>m s. erase this it h l = Throw m s"
  then show "ptr_of it = None" using erase_throw by blast
next
  assume "ptr_of it = None"
  then show "\<exists>m s. erase this it h l = Throw m s" by (simp add: erase_def end_itr_def)
qed

text \<open>
  C3. For a well-formed list and an iterator at any of its positions (the node
  with index \<open>k\<close>, or the sentinel for \<open>k = count\<close>): \<open>erase(position)\<close> throws the
  error of its check (the kind \<open>InvalidIterator\<close>) if and only if the position is
  the sentinel; otherwise it deletes exactly the node at the position, decrements
  the count by one, keeps the remaining nodes in their order with their values,
  and returns an iterator to the position that followed the erased node: the new
  head when the head was erased, the sentinel when the tail was erased, the former
  successor otherwise.
\<close>

theorem erase_at_position:
  assumes "dllist_ok h l as" and "k \<le> length as" and "ptr_of it = pos as k"
  shows "(k = length as \<longrightarrow> erase this it h l = Throw ''itr != end()'' (h, l))
    \<and> ((\<exists>m s. erase this it h l = Throw m s) \<longleftrightarrow> ptr_of it = None)
    \<and> (k < length as \<longrightarrow>
         (\<exists>h' l'. erase this it h l = Return \<lparr>ptr_of = pos as (Suc k), list_of = this\<rparr> (h', l')
            \<and> dllist_ok h' l' (take k as @ drop (Suc k) as)
            \<and> values_of h' (take k as @ drop (Suc k) as)
                = take k (values_of h as) @ drop (Suc k) (values_of h as)
            \<and> size_dl l' = size_dl l - 1
            \<and> h' (as ! k) = None \<and> (\<forall>b. b \<notin> set as \<longrightarrow> h' b = h b)
            \<and> (k = 0 \<longrightarrow> pos as (Suc k) = head l')
            \<and> (Suc k = length as \<longrightarrow> pos as (Suc k) = None)
            \<and> (Suc k < length as \<longrightarrow> pos as (Suc k) = Some (as ! Suc k))))"
proof -
  from assms(1) have sz: "size_dl l = of_nat (length as)" by (simp add: dllist_ok_def)
  have szr: "\<And>h' l' bs. dllist_ok h' l' bs \<Longrightarrow> Suc (length bs) = length as \<Longrightarrow>
      size_dl l' = size_dl l - 1"
  proof -
    fix h' l' bs assume "dllist_ok h' l' (bs :: nat list)" "Suc (length bs) = length as"
    then have "size_dl l' = of_nat (length bs)" "size_dl l = of_nat (Suc (length bs))"
      using sz by (simp_all add: dllist_ok_def)
    then show "size_dl l' = size_dl l - 1" by simp
  qed
  have 1: "k = length as \<longrightarrow> erase this it h l = Throw ''itr != end()'' (h, l)"
    using assms(3) by (simp add: erase_def end_itr_def)
  have 3: "\<exists>h' l'. erase this it h l = Return \<lparr>ptr_of = pos as (Suc k), list_of = this\<rparr> (h', l')
            \<and> dllist_ok h' l' (take k as @ drop (Suc k) as)
            \<and> values_of h' (take k as @ drop (Suc k) as)
                = take k (values_of h as) @ drop (Suc k) (values_of h as)
            \<and> size_dl l' = size_dl l - 1
            \<and> h' (as ! k) = None \<and> (\<forall>b. b \<notin> set as \<longrightarrow> h' b = h b)
            \<and> (k = 0 \<longrightarrow> pos as (Suc k) = head l')" if k: "k < length as"
  proof -
    consider (front) "k = 0" | (last) "0 < k" "Suc k = length as"
      | (inner) "0 < k" "Suc k < length as"
      using k by linarith
    then show ?thesis
    proof cases
      case front
      from k front obtain b bs where as: "as = b # bs" by (cases as) auto
      from pop_front_ok [of h l b bs] assms(1) as obtain h' l' where
        r: "pop_front h l = Return (val (the (h b))) (h', l')" and ok: "dllist_ok h' l' bs"
        and v: "values_of h' bs = values_of h bs" and del: "h' b = None"
        and o: "\<forall>c. c \<notin> set (b # bs) \<longrightarrow> h' c = h c" by blast
      have p: "ptr_of it = Some b" "head l = Some b"
        using assms(1,3) front as by (simp_all add: pos_def dllist_ok_def first_ptr_def)
      then have e: "erase this it h l = Return (begin_itr this l') (h', l')"
        using r by (simp add: erase_def begin_itr_def end_itr_def)
      have hd': "head l' = pos as (Suc k)"
        using ok front as by (cases bs) (simp_all add: dllist_ok_def first_ptr_def pos_def)
      then have "begin_itr this l' = \<lparr>ptr_of = pos as (Suc k), list_of = this\<rparr>"
        by (simp add: begin_itr_def)
      with e ok v del o hd' front as szr [OF ok] show ?thesis
        by (auto simp: values_of_def)
    next
      case last
      note sp = split_at_interior [OF last(1) k]
      let ?xs = "take (k - 1) as" and ?p = "as ! (k - 1)" and ?t = "as ! k"
      have dr: "drop (Suc k) as = []" using last by simp
      have as: "as = ?xs @ [?p, ?t]" using sp(1) dr by simp
      have ok0: "dllist_ok h l (?xs @ [?p, ?t])" using assms(1) as by simp
      have p: "ptr_of it = Some ?t" using assms(3) k by (simp add: pos_def)
      from erase_tail_ok [of h l ?xs ?p ?t it this] ok0 p obtain h' l' where
        r: "erase this it h l = Return (end_itr this) (h', l')"
        and ok: "dllist_ok h' l' (?xs @ [?p])"
        and v: "values_of h' (?xs @ [?p]) = values_of h (?xs @ [?p])"
        and del: "h' ?t = None" and o: "\<forall>c. c \<notin> set (?xs @ [?p, ?t]) \<longrightarrow> h' c = h c"
        by blast
      have e: "take k as @ drop (Suc k) as = ?xs @ [?p]" using sp(2) dr by simp
      have sa: "set (?xs @ [?p, ?t]) = set as" by (rule arg_cong [OF as [symmetric]])
      have o': "\<forall>c. c \<notin> set as \<longrightarrow> h' c = h c" using o unfolding sa .
      have "end_itr this = \<lparr>ptr_of = pos as (Suc k), list_of = this\<rparr>"
        using last by (simp add: end_itr_def pos_def)
      moreover have "Suc (length (take k as @ drop (Suc k) as)) = length as" using k by simp
      moreover have "values_of h' (take k as @ drop (Suc k) as)
                = take k (values_of h as) @ drop (Suc k) (values_of h as)"
        unfolding e v unfolding e [symmetric] by (rule values_of_take_drop)
      ultimately show ?thesis
        using r ok del o' last e szr [of h' l' "take k as @ drop (Suc k) as"] by auto
    next
      case inner
      note sp = split_at_interior [OF inner(1) k]
      let ?xs = "take (k - 1) as" and ?p = "as ! (k - 1)" and ?c = "as ! k"
        and ?n = "as ! Suc k" and ?ys = "drop (Suc (Suc k)) as"
      have dr: "drop (Suc k) as = ?n # ?ys" using inner by (simp add: Cons_nth_drop_Suc)
      have as: "as = ?xs @ ?p # ?c # ?n # ?ys" using sp(1) dr by simp
      have ok0: "dllist_ok h l (?xs @ ?p # ?c # ?n # ?ys)" using assms(1) as by simp
      have p: "ptr_of it = Some ?c" using assms(3) k by (simp add: pos_def)
      from erase_interior_ok [of h l ?xs ?p ?c ?n ?ys it this] ok0 p obtain h' l' where
        r: "erase this it h l = Return \<lparr>ptr_of = Some ?n, list_of = this\<rparr> (h', l')"
        and ok: "dllist_ok h' l' (?xs @ ?p # ?n # ?ys)"
        and v: "values_of h' (?xs @ ?p # ?n # ?ys) = values_of h (?xs @ ?p # ?n # ?ys)"
        and del: "h' ?c = None"
        and o: "\<forall>b. b \<notin> set (?xs @ ?p # ?c # ?n # ?ys) \<longrightarrow> h' b = h b" by blast
      have e: "take k as @ drop (Suc k) as = ?xs @ ?p # ?n # ?ys" using sp(2) dr by simp
      have sa: "set (?xs @ ?p # ?c # ?n # ?ys) = set as" by (rule arg_cong [OF as [symmetric]])
      have o': "\<forall>c. c \<notin> set as \<longrightarrow> h' c = h c" using o unfolding sa .
      have "pos as (Suc k) = Some ?n" using inner by (simp add: pos_def)
      moreover have "Suc (length (take k as @ drop (Suc k) as)) = length as" using k by simp
      moreover have "values_of h' (take k as @ drop (Suc k) as)
                = take k (values_of h as) @ drop (Suc k) (values_of h as)"
        unfolding e v unfolding e [symmetric] by (rule values_of_take_drop)
      ultimately show ?thesis
        using r ok del o' inner e szr [of h' l' "take k as @ drop (Suc k) as"] by auto
    qed
  qed
  have 4: "Suc k = length as \<longrightarrow> pos as (Suc k) = None"
    "Suc k < length as \<longrightarrow> pos as (Suc k) = Some (as ! Suc k)"
    by (simp_all add: pos_def)
  from 1 erase_throw_iff [of this it h l] 3 4 show ?thesis by blast
qed

theorem erase_at_position_witness:
  "dllist_ok two_nodes two_list [0, 1]
   \<and> (1 :: nat) < length [0 :: nat, 1] \<and> ptr_of \<lparr>ptr_of = Some 1, list_of = 0\<rparr> = pos [0, 1] 1
   \<and> (\<exists>h' l'. erase 0 \<lparr>ptr_of = Some 1, list_of = 0\<rparr> two_nodes two_list
          = Return (end_itr 0) (h', l')
        \<and> dllist_ok h' l' [0] \<and> values_of h' [0] = [7] \<and> size_dl l' = 1 \<and> h' 1 = None)
   \<and> (2 :: nat) = length [0 :: nat, 1] \<and> ptr_of (end_itr 0) = pos [0, 1] 2
   \<and> erase 0 (end_itr 0) two_nodes two_list = Throw ''itr != end()'' (two_nodes, two_list)"
proof -
  have a: "dllist_ok two_nodes two_list [0, 1]" by (rule two_list_ok)
  have b: "(1 :: nat) \<le> length [0 :: nat, 1]" "(2 :: nat) \<le> length [0 :: nat, 1]" by simp_all
  have c: "ptr_of \<lparr>ptr_of = Some 1, list_of = 0\<rparr> = pos [0, 1] 1"
    "ptr_of (end_itr 0) = pos [0, 1] 2" by (simp_all add: pos_def end_itr_def)
  have v: "values_of two_nodes [0, 1] = [7, 5]" "size_dl two_list = 2"
    by (simp_all add: two_nodes_def two_list_def)
  have p: "pos [0 :: nat, 1] (Suc 1) = None" by (simp add: pos_def)
  from erase_at_position [OF a b(1) c(1), of 0]
  obtain h' l' where "erase 0 \<lparr>ptr_of = Some 1, list_of = 0\<rparr> two_nodes two_list
          = Return \<lparr>ptr_of = pos [0, 1] (Suc 1), list_of = 0\<rparr> (h', l')"
    "dllist_ok h' l' (take 1 [0, 1] @ drop (Suc 1) [0, 1])"
    "values_of h' (take 1 [0, 1] @ drop (Suc 1) [0, 1])
      = take 1 (values_of two_nodes [0, 1]) @ drop (Suc 1) (values_of two_nodes [0, 1])"
    "size_dl l' = size_dl two_list - 1" "h' ([0, 1] ! 1) = None"
    by auto
  then have 1: "\<exists>h' l'. erase 0 \<lparr>ptr_of = Some 1, list_of = 0\<rparr> two_nodes two_list
          = Return (end_itr 0) (h', l')
        \<and> dllist_ok h' l' [0] \<and> values_of h' [0] = [7] \<and> size_dl l' = 1 \<and> h' 1 = None"
    using v p by (simp add: end_itr_def)
  have 2: "erase 0 (end_itr 0) two_nodes two_list = Throw ''itr != end()'' (two_nodes, two_list)"
    using erase_at_position [OF a b(2) c(2), of 0] by simp
  from a c 1 2 show ?thesis by simp
qed

section \<open>The merge sort on lists\<close>

lemma mset_merge_lists: "mset (merge_lists lt xs ys) = mset xs + mset ys"
  by (induction lt xs ys rule: merge_lists.induct) simp_all

lemma set_merge_lists: "set (merge_lists lt xs ys) = set xs \<union> set ys"
  using mset_merge_lists [of lt xs ys, THEN arg_cong, of set_mset] by simp

lemma merge_lists_Nil2 [simp]: "merge_lists lt xs [] = xs"
  by (cases xs) simp_all

lemma swo_irrefl: "strict_weak_order lt \<Longrightarrow> \<not> lt x x"
  by (simp add: strict_weak_order_def)

lemma swo_trans: "strict_weak_order lt \<Longrightarrow> lt x y \<Longrightarrow> lt y z \<Longrightarrow> lt x z"
  unfolding strict_weak_order_def by blast

lemma swo_asym: "strict_weak_order lt \<Longrightarrow> lt x y \<Longrightarrow> \<not> lt y x"
  using swo_irrefl swo_trans by metis

text \<open>Negative transitivity: the order "not greater" is transitive.\<close>

lemma swo_neg_trans:
  assumes "strict_weak_order lt" "\<not> lt y x" "\<not> lt z y"
  shows "\<not> lt z x"
proof
  assume zx: "lt z x"
  have "\<not> lt x z" using swo_asym [OF assms(1) zx] .
  show False
  proof (cases "lt x y")
    case True
    with zx swo_trans [OF assms(1)] have "lt z y" by blast
    with assms(3) show False by simp
  next
    case xy: False
    show False
    proof (cases "lt y z")
      case True
      with zx swo_trans [OF assms(1)] have "lt y x" by blast
      with assms(2) show False by simp
    next
      case False
      with xy assms(2,3) have "\<not> lt x z \<and> \<not> lt z x"
        using assms(1) unfolding strict_weak_order_def by blast
      with zx show False by simp
    qed
  qed
qed

lemma swo_lt_le_trans:
  assumes "strict_weak_order lt" "lt x y" "\<not> lt z y"
  shows "lt x z"
proof (rule ccontr)
  assume "\<not> lt x z"
  with assms(3) have "\<not> lt x y" using swo_neg_trans [OF assms(1), of z y x] by blast
  with assms(2) show False by simp
qed

lemma sorted_merge_lists:
  "strict_weak_order lt \<Longrightarrow>
    sorted_wrt (\<lambda>a b. \<not> lt b a) xs \<Longrightarrow> sorted_wrt (\<lambda>a b. \<not> lt b a) ys \<Longrightarrow>
    sorted_wrt (\<lambda>a b. \<not> lt b a) (merge_lists lt xs ys)"
proof (induction lt xs ys rule: merge_lists.induct)
  case (1 lt ys)
  then show ?case by simp
next
  case (2 lt x xs)
  then show ?case by simp
next
  case (3 lt x xs y ys)
  note swo = "3.prems"(1)
  show ?case
  proof (cases "lt y x")
    case True
    have "\<not> lt z y" if "z \<in> set (x # xs)" for z
    proof -
      have "\<not> lt z x" using that "3.prems"(2) swo_irrefl [OF swo] by auto
      then show ?thesis using swo_lt_le_trans [OF swo True, of z] swo_asym [OF swo] by blast
    qed
    then show ?thesis using True 3 by (auto simp: set_merge_lists)
  next
    case False
    have "\<not> lt z x" if "z \<in> set (y # ys)" for z
    proof -
      have "\<not> lt z y" using that "3.prems"(3) swo_irrefl [OF swo] by auto
      then show ?thesis using swo_neg_trans [OF swo False] by blast
    qed
    then show ?thesis using False 3 by (auto simp: set_merge_lists)
  qed
qed

text \<open>Stability of the merge: among the elements equivalent to \<open>k\<close>, those of the left
  list come first.\<close>

lemma stable_merge_lists:
  "strict_weak_order lt \<Longrightarrow>
    sorted_wrt (\<lambda>a b. \<not> lt b a) xs \<Longrightarrow> sorted_wrt (\<lambda>a b. \<not> lt b a) ys \<Longrightarrow>
    filter (equiv_by lt k) (merge_lists lt xs ys)
      = filter (equiv_by lt k) xs @ filter (equiv_by lt k) ys"
proof (induction lt xs ys rule: merge_lists.induct)
  case (1 lt ys)
  then show ?case by simp
next
  case (2 lt x xs)
  then show ?case by simp
next
  case (3 lt x xs y ys)
  note swo = "3.prems"(1)
  show ?case
  proof (cases "lt y x")
    case True
    have none: "filter (equiv_by lt k) (x # xs) = []" if ky: "equiv_by lt k y"
    proof -
      have "\<not> equiv_by lt k z" if "z \<in> set (x # xs)" for z
      proof
        assume kz: "equiv_by lt k z"
        have "\<not> lt z x" using that "3.prems"(2) swo_irrefl [OF swo] by auto
        then have yz: "lt y z" using swo_lt_le_trans [OF swo True] by blast
        have "equiv_by lt y z"
          using ky kz swo unfolding equiv_by_def strict_weak_order_def by blast
        with yz show False by (simp add: equiv_by_def)
      qed
      then show ?thesis by (simp add: filter_empty_conv)
    qed
    have "filter (equiv_by lt k) (merge_lists lt (x # xs) (y # ys))
        = filter (equiv_by lt k) [y] @ filter (equiv_by lt k) (merge_lists lt (x # xs) ys)"
      using True by simp
    also have "\<dots> = filter (equiv_by lt k) [y]
        @ filter (equiv_by lt k) (x # xs) @ filter (equiv_by lt k) ys"
      using "3.IH"(1) [OF True swo] "3.prems" by simp
    also have "\<dots> = filter (equiv_by lt k) (x # xs) @ filter (equiv_by lt k) (y # ys)"
      using none by (cases "equiv_by lt k y") simp_all
    finally show ?thesis .
  next
    case False
    then show ?thesis using "3.IH"(2) [OF False swo] "3.prems" by simp
  qed
qed

lemma length_le_1_cases: "length xs \<le> 1 \<Longrightarrow> xs = [] \<or> (\<exists>x. xs = [x])"
  by (cases xs) auto

lemma mset_msort: "mset (msort lt xs) = mset xs"
proof (induction lt xs rule: msort.induct)
  case (1 lt xs)
  show ?case
  proof (cases "length xs \<le> 1")
    case True
    then show ?thesis by (subst msort.simps) simp
  next
    case False
    let ?k = "(length xs + 1) div 2"
    have "mset (msort lt xs) = mset (msort lt (take ?k xs)) + mset (msort lt (drop ?k xs))"
      using False by (subst msort.simps) (simp add: mset_merge_lists)
    also have "\<dots> = mset (take ?k xs) + mset (drop ?k xs)"
      using False 1 by simp
    also have "\<dots> = mset (take ?k xs @ drop ?k xs)" by (simp only: mset_append)
    finally show ?thesis by simp
  qed
qed

lemma sorted_msort:
  "strict_weak_order lt \<Longrightarrow> sorted_wrt (\<lambda>a b. \<not> lt b a) (msort lt xs)"
proof (induction lt xs rule: msort.induct)
  case (1 lt xs)
  show ?case
  proof (cases "length xs \<le> 1")
    case True
    then show ?thesis using length_le_1_cases [OF True] by (subst msort.simps) auto
  next
    case False
    then show ?thesis using 1 by (subst msort.simps) (simp add: sorted_merge_lists)
  qed
qed

lemma stable_msort:
  "strict_weak_order lt \<Longrightarrow>
    filter (equiv_by lt k) (msort lt xs) = filter (equiv_by lt k) xs"
proof (induction lt xs rule: msort.induct)
  case (1 lt xs)
  show ?case
  proof (cases "length xs \<le> 1")
    case True
    then show ?thesis by (subst msort.simps) simp
  next
    case False
    let ?k = "(length xs + 1) div 2"
    have "filter (equiv_by lt k) (msort lt xs)
        = filter (equiv_by lt k) (msort lt (take ?k xs))
          @ filter (equiv_by lt k) (msort lt (drop ?k xs))"
      using False "1.prems"
      by (subst msort.simps) (simp add: stable_merge_lists sorted_msort)
    also have "\<dots> = filter (equiv_by lt k) (take ?k xs) @ filter (equiv_by lt k) (drop ?k xs)"
      using False 1 by simp
    also have "\<dots> = filter (equiv_by lt k) (take ?k xs @ drop ?k xs)"
      by (simp only: filter_append)
    finally show ?thesis by simp
  qed
qed

section \<open>The merge sort on the nodes\<close>

lemma sort_split_mid:
  assumes "dlseg h pv as nx" "distinct as"
  shows "i < j \<Longrightarrow> j < length as \<Longrightarrow>
    sort_split h (Some (as ! i)) (Some (as ! j))
      = Some (Return (Some (as ! ((i + j) div 2)), Some (as ! ((i + j) div 2 + 1))) h)"
proof (induction "j - i" arbitrary: i j rule: less_induct)
  case less
  from less.prems have il: "i < length as" "Suc i < length as" "0 < j" by simp_all
  from dlseg_nth [OF assms(1) il(1)] il(2) obtain n1 where n1: "h (as ! i) = Some n1"
    "next n1 = Some (as ! Suc i)" by auto
  from dlseg_nth [OF assms(1) less.prems(2)] il(3) obtain n2 where n2: "h (as ! j) = Some n2"
    "prev n2 = Some (as ! (j - 1))" by auto
  have inj: "\<And>a b. a < length as \<Longrightarrow> b < length as \<Longrightarrow> as ! a = as ! b \<longleftrightarrow> a = b"
    using assms(2) by (simp add: nth_eq_iff_index_eq)
  show ?case
  proof (cases "Suc i = j")
    case True
    then have "(i + j) div 2 = i" by simp
    with True n1 show ?thesis by (subst sort_split.simps) simp
  next
    case ne1: False
    then have c1: "next n1 \<noteq> Some (as ! j)" using n1 inj il less.prems by simp
    show ?thesis
    proof (cases "j - 1 = Suc i")
      case True
      then have "(i + j) div 2 = Suc i" "(i + j) div 2 + 1 = j" by simp_all
      with True n1 n2 c1 show ?thesis by (subst sort_split.simps) simp
    next
      case ne2: False
      then have c2: "prev n2 \<noteq> next n1" using n1 n2 inj il less.prems by simp
      have lt: "Suc i < j - 1" using ne1 ne2 less.prems by simp
      have "sort_split h (Some (as ! Suc i)) (Some (as ! (j - 1)))
          = Some (Return (Some (as ! ((Suc i + (j - 1)) div 2)),
                          Some (as ! ((Suc i + (j - 1)) div 2 + 1))) h)"
        using lt less.prems by (intro less.hyps) simp_all
      moreover have "Suc i + (j - 1) = i + j" using il by simp
      ultimately have "sort_split h (Some (as ! Suc i)) (Some (as ! (j - 1)))
          = Some (Return (Some (as ! ((i + j) div 2)), Some (as ! ((i + j) div 2 + 1))) h)"
        by (simp only:)
      with n1 n2 c1 c2 show ?thesis by (subst sort_split.simps) simp
    qed
  qed
qed

lemma relinked_refl [simp]: "relinked S h h"
  by (simp add: relinked_def)

lemma relinked_trans:
  "relinked S h h1 \<Longrightarrow> relinked T h1 h2 \<Longrightarrow> relinked (S \<union> T) h h2"
  by (auto simp: relinked_def)

lemma relinked_mono: "relinked S h h' \<Longrightarrow> S \<subseteq> T \<Longrightarrow> relinked T h h'"
  by (auto simp: relinked_def)

lemma key_of_relinked: "relinked S h h' \<Longrightarrow> key_of h' a = key_of h a"
  unfolding relinked_def key_of_def
  by (metis option.map_sel option.simps(8) option.map_disc_iff)

lemma lt_addr_relinked: "relinked S h h' \<Longrightarrow> lt_addr cmp h' = lt_addr cmp h"
  by (intro ext) (simp add: lt_addr_def key_of_relinked)

lemma dlseg_relinked:
  "relinked S h h' \<Longrightarrow> set as \<inter> S = {} \<Longrightarrow> dlseg h' pv as nx = dlseg h pv as nx"
  by (rule dlseg_frame) (auto simp: relinked_def)

text \<open>Linking the node \<open>z\<close>, the first of a segment, behind the last node of \<open>D\<close>.\<close>

lemma link_after:
  assumes "D \<noteq> []" "dlseg h None D xD" "dlseg h pZ (z # zs) None" "distinct (D @ z # zs)"
  shows "\<exists>nt nz. h (last D) = Some nt \<and> h z = Some nz \<and> next nz = first_or None zs
    \<and> dlseg (h(z \<mapsto> nz\<lparr>prev := Some (last D)\<rparr>, last D \<mapsto> nt\<lparr>next := Some z\<rparr>))
         None (D @ [z]) (first_or None zs)
    \<and> dlseg (h(z \<mapsto> nz\<lparr>prev := Some (last D)\<rparr>, last D \<mapsto> nt\<lparr>next := Some z\<rparr>))
         (Some z) zs None
    \<and> relinked {z, last D} h
         (h(z \<mapsto> nz\<lparr>prev := Some (last D)\<rparr>, last D \<mapsto> nt\<lparr>next := Some z\<rparr>))"
proof -
  from assms(1) obtain D' t where D: "D = D' @ [t]" by (cases D rule: rev_cases) auto
  from assms(2) D have sD': "dlseg h None D' (Some t)" and st: "dlseg h (last_or None D') [t] xD"
    by (simp_all add: dlseg_append)
  from st obtain nt where nt: "h t = Some nt" "prev nt = last_or None D'" by auto
  from assms(3) obtain nz where nz: "h z = Some nz" "next nz = first_or None zs"
    and sz: "dlseg h (Some z) zs None" by auto
  from assms(4) D have ne: "t \<noteq> z" "t \<notin> set D'" "z \<notin> set D'" "t \<notin> set zs" "z \<notin> set zs"
    by auto
  let ?h = "h(z \<mapsto> nz\<lparr>prev := Some t\<rparr>, t \<mapsto> nt\<lparr>next := Some z\<rparr>)"
  have 1: "dlseg ?h None ((D' @ [t]) @ [z]) (first_or None zs)"
    using sD' nt nz ne by (simp add: dlseg_append)
  have 2: "dlseg ?h (Some z) zs None" using sz ne by simp
  have 3: "relinked {z, t} h ?h" using nt nz ne by (auto simp: relinked_def)
  from nt nz 1 2 3 show ?thesis unfolding D by auto
qed

lemma link_step:
  assumes "D \<noteq> []" "dlseg h None D xD" "dlseg h pZ (z # zs) None" "distinct (D @ z # zs)"
  shows "\<exists>h1 h2 nz' nt'. set_prev h (Some z) (Some (last D)) = Some h1
    \<and> set_next h1 (Some (last D)) (Some z) = Some h2
    \<and> h2 z = Some nz' \<and> next nz' = first_or None zs
    \<and> h2 (last D) = Some nt' \<and> next nt' = Some z
    \<and> dlseg h2 None (D @ [z]) (first_or None zs) \<and> dlseg h2 (Some z) zs None
    \<and> relinked {z, last D} h h2"
proof -
  from link_after [OF assms] obtain nt nz where nt: "h (last D) = Some nt"
    and nz: "h z = Some nz" "next nz = first_or None zs"
    and r: "dlseg (h(z \<mapsto> nz\<lparr>prev := Some (last D)\<rparr>, last D \<mapsto> nt\<lparr>next := Some z\<rparr>))
         None (D @ [z]) (first_or None zs)"
      "dlseg (h(z \<mapsto> nz\<lparr>prev := Some (last D)\<rparr>, last D \<mapsto> nt\<lparr>next := Some z\<rparr>))
         (Some z) zs None"
      "relinked {z, last D} h
         (h(z \<mapsto> nz\<lparr>prev := Some (last D)\<rparr>, last D \<mapsto> nt\<lparr>next := Some z\<rparr>))"
    by blast
  have ne: "last D \<noteq> z" using assms(1,4) by auto
  let ?h1 = "h(z \<mapsto> nz\<lparr>prev := Some (last D)\<rparr>)"
  let ?h2 = "?h1(last D \<mapsto> nt\<lparr>next := Some z\<rparr>)"
  have "set_prev h (Some z) (Some (last D)) = Some ?h1" using nz by simp
  moreover have "set_next ?h1 (Some (last D)) (Some z) = Some ?h2" using nt ne by simp
  moreover have "?h2 z = Some (nz\<lparr>prev := Some (last D)\<rparr>)" using ne by simp
  moreover have "?h2 (last D) = Some (nt\<lparr>next := Some z\<rparr>)" by simp
  ultimately show ?thesis using r nz(2) by (intro exI [of _ ?h1] exI [of _ ?h2]) auto
qed

lemma splice_rest:
  assumes "D \<noteq> []" "dlseg h None D xD" "dlseg h pZ (z # zs) None" "distinct (D @ z # zs)"
  shows "\<exists>h1 h2. set_prev h (Some z) (Some (last D)) = Some h1
    \<and> set_next h1 (Some (last D)) (Some z) = Some h2
    \<and> dlseg h2 None (D @ z # zs) None \<and> relinked (set (D @ z # zs)) h h2"
proof -
  from link_step [OF assms] obtain h1 h2 where
    a: "set_prev h (Some z) (Some (last D)) = Some h1"
       "set_next h1 (Some (last D)) (Some z) = Some h2"
    and s: "dlseg h2 None (D @ [z]) (first_or None zs)" "dlseg h2 (Some z) zs None"
    and r: "relinked {z, last D} h h2" by blast
  have "dlseg h2 None ((D @ [z]) @ zs) None" using s by (simp only: dlseg_append) simp
  moreover have "{z, last D} \<subseteq> set (D @ z # zs)" using assms(1) by simp
  then have "relinked (set (D @ z # zs)) h h2" using r relinked_mono by blast
  ultimately show ?thesis using a by auto
qed

lemma then_do_Return [simp]: "then_do (Some (Return r s)) f = f r s"
  by (simp add: then_do_def)

lemma merge_finish:
  "D \<noteq> [] \<Longrightarrow> dlseg h None D xD \<Longrightarrow> dlseg h pL Lr None \<Longrightarrow> dlseg h pR Rr None \<Longrightarrow>
   distinct (D @ Lr @ Rr) \<Longrightarrow> Lr \<noteq> [] \<or> Rr \<noteq> [] \<Longrightarrow>
   (Lr \<noteq> [] \<longrightarrow> snd sl = Some (last Lr)) \<Longrightarrow> (Rr \<noteq> [] \<longrightarrow> snd sr = Some (last Rr)) \<Longrightarrow>
   lt = lt_addr cmp h \<Longrightarrow>
   \<exists>h'. then_do (merge_loop cmp h (first_or None Lr) (first_or None Rr) (Some (last D)))
            (merge_splice rh sl sr)
        = Some (Return (rh, Some (last (D @ merge_lists lt Lr Rr))) h')
     \<and> dlseg h' None (D @ merge_lists lt Lr Rr) None
     \<and> relinked (set (D @ Lr @ Rr)) h h'"
proof (induction lt Lr Rr arbitrary: h D xD pL pR rule: merge_lists.induct)
  case (1 lt ys)
  then obtain y ys' where ys: "ys = y # ys'" by (cases ys) auto
  from "1.prems"(4,5) ys have d: "distinct (D @ y # ys')" and s: "dlseg h pR (y # ys') None"
    by simp_all
  from splice_rest [OF "1.prems"(1,2) s d] obtain h1 h2 where
    a: "set_prev h (Some y) (Some (last D)) = Some h1"
       "set_next h1 (Some (last D)) (Some y) = Some h2"
    and r: "dlseg h2 None (D @ y # ys') None" "relinked (set (D @ y # ys')) h h2" by blast
  have "merge_loop cmp h (first_or None []) (first_or None ys) (Some (last D))
      = Some (Return (None, Some y, Some (last D)) h)"
    using ys by (subst merge_loop.simps) simp
  then have "then_do (merge_loop cmp h (first_or None []) (first_or None ys) (Some (last D)))
            (merge_splice rh sl sr) = Some (Return (rh, snd sr) h2)"
    using a by (simp add: merge_splice_def)
  then show ?case using r ys "1.prems"(8) by auto
next
  case (2 lt x xs)
  from "2.prems"(3,5) have d: "distinct (D @ x # xs)" and s: "dlseg h pL (x # xs) None"
    by simp_all
  from splice_rest [OF "2.prems"(1,2) s d] obtain h1 h2 where
    a: "set_prev h (Some x) (Some (last D)) = Some h1"
       "set_next h1 (Some (last D)) (Some x) = Some h2"
    and r: "dlseg h2 None (D @ x # xs) None" "relinked (set (D @ x # xs)) h h2" by blast
  have "merge_loop cmp h (first_or None (x # xs)) (first_or None []) (Some (last D))
      = Some (Return (Some x, None, Some (last D)) h)"
    by (subst merge_loop.simps) simp
  then have "then_do (merge_loop cmp h (first_or None (x # xs)) (first_or None []) (Some (last D)))
            (merge_splice rh sl sr) = Some (Return (rh, snd sl) h2)"
    using a by (simp add: merge_splice_def)
  then show ?case using r "2.prems"(7) by auto
next
  case (3 lt x xs y ys)
  note lt = "3.prems"(9)
  from "3.prems"(3) obtain nx where nx: "h x = Some nx" by auto
  from "3.prems"(4) obtain ny where ny: "h y = Some ny" by auto
  have cond: "cmp (val ny) (val nx) \<longleftrightarrow> lt y x"
    using nx ny lt by (simp add: lt_addr_def key_of_def)
  let ?S = "set (D @ (x # xs) @ (y # ys))"
  have lD: "last D \<in> set D" using "3.prems"(1) by simp
  have "set D \<inter> set (x # xs) = {}" "set D \<inter> set (y # ys) = {}"
    using "3.prems"(5) by auto
  with lD have lxy: "last D \<notin> set (x # xs)" "last D \<notin> set (y # ys)" by blast+
  have xy: "x \<notin> set (y # ys)" "y \<notin> set (x # xs)" using "3.prems"(5) by auto
  show ?case
  proof (cases "lt y x")
    case True
    from "3.prems"(5) have d: "distinct (D @ y # ys)" by auto
    from link_step [OF "3.prems"(1,2,4) d] obtain h1 h2 ny' nt' where
      a: "set_prev h (Some y) (Some (last D)) = Some h1"
         "set_next h1 (Some (last D)) (Some y) = Some h2"
         "h2 y = Some ny'" "next ny' = first_or None ys"
         "h2 (last D) = Some nt'" "next nt' = Some y"
      and s: "dlseg h2 None (D @ [y]) (first_or None ys)" "dlseg h2 (Some y) ys None"
      and r: "relinked {y, last D} h h2" by blast
    have step: "merge_loop cmp h (first_or None (x # xs)) (first_or None (y # ys)) (Some (last D))
        = merge_loop cmp h2 (first_or None (x # xs)) (first_or None ys) (Some (last (D @ [y])))"
      using nx ny cond True a by (subst merge_loop.simps) simp
    have dis: "set (x # xs) \<inter> {y, last D} = {}" using lxy xy by auto
    have sx: "dlseg h2 pL (x # xs) None"
      using "3.prems"(3) dlseg_relinked [OF r dis] by simp
    have "\<exists>h'. then_do (merge_loop cmp h2 (first_or None (x # xs)) (first_or None ys)
                (Some (last (D @ [y])))) (merge_splice rh sl sr)
          = Some (Return (rh, Some (last ((D @ [y]) @ merge_lists lt (x # xs) ys))) h')
        \<and> dlseg h' None ((D @ [y]) @ merge_lists lt (x # xs) ys) None
        \<and> relinked (set ((D @ [y]) @ (x # xs) @ ys)) h2 h'"
    proof (rule "3.IH"(1) [OF True _ s(1) sx s(2)])
      show "D @ [y] \<noteq> []" by simp
      show "distinct ((D @ [y]) @ (x # xs) @ ys)" using "3.prems"(5) by auto
      show "x # xs \<noteq> [] \<or> ys \<noteq> []" by simp
      show "x # xs \<noteq> [] \<longrightarrow> snd sl = Some (last (x # xs))" using "3.prems"(7) by simp
      show "ys \<noteq> [] \<longrightarrow> snd sr = Some (last ys)" using "3.prems"(8) by simp
      show "lt = lt_addr cmp h2" using lt lt_addr_relinked [OF r] by simp
    qed
    then obtain h' where
      e: "then_do (merge_loop cmp h2 (first_or None (x # xs)) (first_or None ys)
                (Some (last (D @ [y])))) (merge_splice rh sl sr)
          = Some (Return (rh, Some (last ((D @ [y]) @ merge_lists lt (x # xs) ys))) h')"
      and s': "dlseg h' None ((D @ [y]) @ merge_lists lt (x # xs) ys) None"
      and r': "relinked (set ((D @ [y]) @ (x # xs) @ ys)) h2 h'" by blast
    have m: "D @ merge_lists lt (x # xs) (y # ys) = (D @ [y]) @ merge_lists lt (x # xs) ys"
      using True by simp
    have "relinked ({y, last D} \<union> set ((D @ [y]) @ (x # xs) @ ys)) h h'"
      using r r' by (rule relinked_trans)
    moreover have "{y, last D} \<union> set ((D @ [y]) @ (x # xs) @ ys) \<subseteq> ?S"
      using lD by auto
    ultimately have "relinked ?S h h'" using relinked_mono by blast
    with e s' show ?thesis unfolding step m by blast
  next
    case False
    from "3.prems"(5) have d: "distinct (D @ x # xs)" by auto
    from link_step [OF "3.prems"(1,2,3) d] obtain h1 h2 nx' nt' where
      a: "set_prev h (Some x) (Some (last D)) = Some h1"
         "set_next h1 (Some (last D)) (Some x) = Some h2"
         "h2 x = Some nx'" "next nx' = first_or None xs"
         "h2 (last D) = Some nt'" "next nt' = Some x"
      and s: "dlseg h2 None (D @ [x]) (first_or None xs)" "dlseg h2 (Some x) xs None"
      and r: "relinked {x, last D} h h2" by blast
    have step: "merge_loop cmp h (first_or None (x # xs)) (first_or None (y # ys)) (Some (last D))
        = merge_loop cmp h2 (first_or None xs) (first_or None (y # ys)) (Some (last (D @ [x])))"
      using nx ny cond False a by (subst merge_loop.simps) simp
    have dis: "set (y # ys) \<inter> {x, last D} = {}" using lxy xy by auto
    have sy: "dlseg h2 pR (y # ys) None"
      using "3.prems"(4) dlseg_relinked [OF r dis] by simp
    have "\<exists>h'. then_do (merge_loop cmp h2 (first_or None xs) (first_or None (y # ys))
                (Some (last (D @ [x])))) (merge_splice rh sl sr)
          = Some (Return (rh, Some (last ((D @ [x]) @ merge_lists lt xs (y # ys)))) h')
        \<and> dlseg h' None ((D @ [x]) @ merge_lists lt xs (y # ys)) None
        \<and> relinked (set ((D @ [x]) @ xs @ (y # ys))) h2 h'"
    proof (rule "3.IH"(2) [OF False _ s(1) s(2) sy])
      show "D @ [x] \<noteq> []" by simp
      show "distinct ((D @ [x]) @ xs @ (y # ys))" using "3.prems"(5) by auto
      show "xs \<noteq> [] \<or> y # ys \<noteq> []" by simp
      show "xs \<noteq> [] \<longrightarrow> snd sl = Some (last xs)" using "3.prems"(7) by simp
      show "y # ys \<noteq> [] \<longrightarrow> snd sr = Some (last (y # ys))" using "3.prems"(8) by simp
      show "lt = lt_addr cmp h2" using lt lt_addr_relinked [OF r] by simp
    qed
    then obtain h' where
      e: "then_do (merge_loop cmp h2 (first_or None xs) (first_or None (y # ys))
                (Some (last (D @ [x])))) (merge_splice rh sl sr)
          = Some (Return (rh, Some (last ((D @ [x]) @ merge_lists lt xs (y # ys)))) h')"
      and s': "dlseg h' None ((D @ [x]) @ merge_lists lt xs (y # ys)) None"
      and r': "relinked (set ((D @ [x]) @ xs @ (y # ys))) h2 h'" by blast
    have m: "D @ merge_lists lt (x # xs) (y # ys) = (D @ [x]) @ merge_lists lt xs (y # ys)"
      using False by simp
    have "relinked ({x, last D} \<union> set ((D @ [x]) @ xs @ (y # ys))) h h'"
      using r r' by (rule relinked_trans)
    moreover have "{x, last D} \<union> set ((D @ [x]) @ xs @ (y # ys)) \<subseteq> ?S"
      using lD by auto
    ultimately have "relinked ?S h h'" using relinked_mono by blast
    with e s' show ?thesis unfolding step m by blast
  qed
qed

lemma sort_merge_ok:
  assumes "dlseg h None L None" "dlseg h None R None" "L \<noteq> []" "R \<noteq> []" "distinct (L @ R)"
  shows "\<exists>h'. sort_merge cmp h (Some (hd L), Some (last L)) (Some (hd R), Some (last R))
        = Some (Return (Some (hd (merge_lists (lt_addr cmp h) L R)),
                        Some (last (merge_lists (lt_addr cmp h) L R))) h')
     \<and> dlseg h' None (merge_lists (lt_addr cmp h) L R) None
     \<and> relinked (set (L @ R)) h h'"
proof -
  let ?lt = "lt_addr cmp h"
  let ?sl = "(Some (hd L), Some (last L))" and ?sr = "(Some (hd R), Some (last R))"
  from assms(3) obtain x xs where L: "L = x # xs" by (cases L) auto
  from assms(4) obtain y ys where R: "R = y # ys" by (cases R) auto
  from assms(1) L obtain nx where nx: "h x = Some nx" "prev nx = None"
    "next nx = first_or None xs" and sxs: "dlseg h (Some x) xs None" by auto
  from assms(2) R obtain ny where ny: "h y = Some ny" "prev ny = None"
    "next ny = first_or None ys" and sys: "dlseg h (Some y) ys None" by auto
  have cond: "cmp (val ny) (val nx) \<longleftrightarrow> ?lt y x"
    using nx ny by (simp add: lt_addr_def key_of_def)
  show ?thesis
  proof (cases "?lt y x")
    case True
    have e: "sort_merge cmp h ?sl ?sr
        = then_do (merge_loop cmp h (first_or None (x # xs)) (first_or None ys) (Some (last [y])))
            (merge_splice (Some y) ?sl ?sr)"
      using nx ny cond True L R by (simp add: sort_merge_def Let_def)
    have "\<exists>h'. then_do (merge_loop cmp h (first_or None (x # xs)) (first_or None ys)
              (Some (last [y]))) (merge_splice (Some y) ?sl ?sr)
          = Some (Return (Some y, Some (last ([y] @ merge_lists ?lt (x # xs) ys))) h')
        \<and> dlseg h' None ([y] @ merge_lists ?lt (x # xs) ys) None
        \<and> relinked (set ([y] @ (x # xs) @ ys)) h h'"
    proof (rule merge_finish)
      show "[y] \<noteq> []" by simp
      show "dlseg h None [y] (first_or None ys)" using ny by simp
      show "dlseg h None (x # xs) None" using assms(1) L by simp
      show "dlseg h (Some y) ys None" by (rule sys)
      show "distinct ([y] @ (x # xs) @ ys)" using assms(5) L R by auto
      show "x # xs \<noteq> [] \<or> ys \<noteq> []" by simp
      show "x # xs \<noteq> [] \<longrightarrow> snd ?sl = Some (last (x # xs))" using L by simp
      show "ys \<noteq> [] \<longrightarrow> snd ?sr = Some (last ys)" using R by simp
      show "?lt = lt_addr cmp h" by simp
    qed
    then obtain h' where
      r: "then_do (merge_loop cmp h (first_or None (x # xs)) (first_or None ys)
              (Some (last [y]))) (merge_splice (Some y) ?sl ?sr)
          = Some (Return (Some y, Some (last ([y] @ merge_lists ?lt (x # xs) ys))) h')"
      "dlseg h' None ([y] @ merge_lists ?lt (x # xs) ys) None"
      "relinked (set ([y] @ (x # xs) @ ys)) h h'" by blast
    have m: "merge_lists ?lt L R = [y] @ merge_lists ?lt (x # xs) ys" using True L R by simp
    have "set ([y] @ (x # xs) @ ys) = set (L @ R)" using L R by auto
    with r e m show ?thesis by auto
  next
    case False
    have e: "sort_merge cmp h ?sl ?sr
        = then_do (merge_loop cmp h (first_or None xs) (first_or None (y # ys)) (Some (last [x])))
            (merge_splice (Some x) ?sl ?sr)"
      using nx ny cond False L R by (simp add: sort_merge_def Let_def)
    have "\<exists>h'. then_do (merge_loop cmp h (first_or None xs) (first_or None (y # ys))
              (Some (last [x]))) (merge_splice (Some x) ?sl ?sr)
          = Some (Return (Some x, Some (last ([x] @ merge_lists ?lt xs (y # ys)))) h')
        \<and> dlseg h' None ([x] @ merge_lists ?lt xs (y # ys)) None
        \<and> relinked (set ([x] @ xs @ (y # ys))) h h'"
    proof (rule merge_finish)
      show "[x] \<noteq> []" by simp
      show "dlseg h None [x] (first_or None xs)" using nx by simp
      show "dlseg h (Some x) xs None" by (rule sxs)
      show "dlseg h None (y # ys) None" using assms(2) R by simp
      show "distinct ([x] @ xs @ (y # ys))" using assms(5) L R by auto
      show "xs \<noteq> [] \<or> y # ys \<noteq> []" by simp
      show "xs \<noteq> [] \<longrightarrow> snd ?sl = Some (last xs)" using L by simp
      show "y # ys \<noteq> [] \<longrightarrow> snd ?sr = Some (last (y # ys))" using R by simp
      show "?lt = lt_addr cmp h" by simp
    qed
    then obtain h' where
      r: "then_do (merge_loop cmp h (first_or None xs) (first_or None (y # ys))
              (Some (last [x]))) (merge_splice (Some x) ?sl ?sr)
          = Some (Return (Some x, Some (last ([x] @ merge_lists ?lt xs (y # ys)))) h')"
      "dlseg h' None ([x] @ merge_lists ?lt xs (y # ys)) None"
      "relinked (set ([x] @ xs @ (y # ys))) h h'" by blast
    have m: "merge_lists ?lt L R = [x] @ merge_lists ?lt xs (y # ys)" using False L R by simp
    have "set ([x] @ xs @ (y # ys)) = set (L @ R)" using L R by auto
    with r e m show ?thesis by auto
  qed
qed

lemma set_msort: "set (msort lt xs) = set xs"
  using mset_msort [of lt xs] by (rule mset_eq_setD)

lemma distinct_msort: "distinct (msort lt xs) = distinct xs"
  using mset_msort [of lt xs] by (rule mset_eq_imp_distinct_iff)

lemma msort_Nil_iff: "msort lt xs = [] \<longleftrightarrow> xs = []"
  using set_msort [of lt xs] by (metis set_empty)

text \<open>Cutting a segment in two.\<close>

lemma cut_segment:
  assumes "dlseg h None (L @ R) None" "distinct (L @ R)" "L \<noteq> []" "R \<noteq> []"
  shows "\<exists>h1 h2. set_next h (Some (last L)) None = Some h1
    \<and> set_prev h1 (Some (hd R)) None = Some h2
    \<and> dlseg h2 None L None \<and> dlseg h2 None R None \<and> relinked (set (L @ R)) h h2"
proof -
  from assms(3) obtain L' m1 where L: "L = L' @ [m1]" by (cases L rule: rev_cases) auto
  from assms(4) obtain m2 R' where R: "R = m2 # R'" by (cases R) auto
  from assms(1) L R have sL': "dlseg h None L' (Some m1)"
    and s1: "dlseg h (last_or None L') [m1] (Some m2)" and sR: "dlseg h (Some m1) (m2 # R') None"
    by (auto simp: dlseg_append)
  from s1 obtain n1 where n1: "h m1 = Some n1" "prev n1 = last_or None L'" by auto
  from sR obtain n2 where n2: "h m2 = Some n2" "next n2 = first_or None R'"
    and sR': "dlseg h (Some m2) R' None" by auto
  from assms(2) L R have ne: "m1 \<noteq> m2" "m1 \<notin> set L'" "m2 \<notin> set L'" "m1 \<notin> set R'" "m2 \<notin> set R'"
    by auto
  let ?h1 = "h(m1 \<mapsto> n1\<lparr>next := None\<rparr>)"
  let ?h2 = "?h1(m2 \<mapsto> n2\<lparr>prev := None\<rparr>)"
  have a: "set_next h (Some (last L)) None = Some ?h1" using n1 L by simp
  have b: "set_prev ?h1 (Some (hd R)) None = Some ?h2" using n2 R ne by simp
  have c: "dlseg ?h2 None (L' @ [m1]) None" using sL' n1 ne by (simp add: dlseg_append)
  have d: "dlseg ?h2 None (m2 # R') None" using sR' n2 ne by simp
  have e: "relinked (set (L @ R)) h ?h2" using n1 n2 ne L R by (auto simp: relinked_def)
  from a b c d e show ?thesis unfolding L R by blast
qed

lemma split_index: "2 \<le> n \<Longrightarrow> (n - 1) div 2 + 1 = (n + 1) div 2 \<and> 0 < (n + 1) div 2
    \<and> (n + 1) div 2 < (n::nat)"
  by presburger

lemma priv_sort_ok:
  "dlseg h None as None \<Longrightarrow> distinct as \<Longrightarrow> as \<noteq> [] \<Longrightarrow>
   \<exists>h'. priv_sort cmp h (Some (hd as)) (Some (last as))
        = Some (Return (Some (hd (msort (lt_addr cmp h) as)),
                        Some (last (msort (lt_addr cmp h) as))) h')
     \<and> dlseg h' None (msort (lt_addr cmp h) as) None
     \<and> relinked (set as) h h'"
proof (induction "length as" arbitrary: h as rule: less_induct)
  case less
  let ?lt = "lt_addr cmp h"
  let ?n = "length as"
  show ?case
  proof (cases "?n \<le> 1")
    case True
    with less.prems(3) obtain a where as: "as = [a]" using length_le_1_cases by blast
    have "msort ?lt as = as" using True by (subst msort.simps) simp
    moreover have "priv_sort cmp h (Some (hd as)) (Some (last as))
        = Some (Return (Some (hd as), Some (last as)) h)"
      using as by (subst priv_sort.simps) simp
    ultimately show ?thesis using less.prems(1) by auto
  next
    case False
    then have n2: "2 \<le> ?n" by simp
    let ?k = "(?n + 1) div 2"
    let ?L = "take ?k as" and ?R = "drop ?k as"
    note ix = split_index [OF n2]
    have k: "0 < ?k" "?k < ?n" using ix by simp_all
    have LR: "as = ?L @ ?R" by simp
    have ne: "?L \<noteq> []" "?R \<noteq> []" using k less.prems(3) by simp_all
    have hdL: "hd ?L = hd as" using k by simp
    have lastL: "last ?L = as ! (?k - 1)" using k ne by (simp add: last_conv_nth)
    have hdR: "hd ?R = as ! ?k" using k by (simp add: hd_drop_conv_nth)
    have lastR: "last ?R = last as" using k by simp
    have hd0: "hd as = as ! 0" using less.prems(3) by (simp add: hd_conv_nth)
    have lastn: "last as = as ! (?n - 1)" using less.prems(3) by (simp add: last_conv_nth)
    have "as ! 0 = as ! (?n - 1) \<longleftrightarrow> 0 = ?n - 1"
      using less.prems(2,3) n2 by (intro nth_eq_iff_index_eq) simp_all
    then have bne: "Some (hd as) \<noteq> Some (last as)"
      using n2 unfolding hd0 lastn by simp
    \<comment> \<open>the two middle nodes\<close>
    have "sort_split h (Some (as ! 0)) (Some (as ! (?n - 1)))
        = Some (Return (Some (as ! ((0 + (?n - 1)) div 2)),
                        Some (as ! ((0 + (?n - 1)) div 2 + 1))) h)"
      using n2 by (intro sort_split_mid [OF less.prems(1,2)]) simp_all
    moreover have "(0 + (?n - 1)) div 2 + 1 = ?k" "(0 + (?n - 1)) div 2 = ?k - 1"
      using ix by simp_all
    ultimately have split: "sort_split h (Some (hd as)) (Some (last as))
        = Some (Return (Some (last ?L), Some (hd ?R)) h)"
      unfolding hd0 lastn lastL hdR by (simp only:)
    \<comment> \<open>the cut\<close>
    have sLR: "dlseg h None (?L @ ?R) None" "distinct (?L @ ?R)" using less.prems by simp_all
    from cut_segment [OF sLR ne] obtain h1 h2 where
      cut: "set_next h (Some (last ?L)) None = Some h1"
           "set_prev h1 (Some (hd ?R)) None = Some h2"
      and s2: "dlseg h2 None ?L None" "dlseg h2 None ?R None"
      and r2: "relinked (set (?L @ ?R)) h h2" by blast
    have "distinct ?L \<and> distinct ?R \<and> set ?L \<inter> set ?R = {}"
      using sLR(2) by (simp only: distinct_append)
    then have dL: "distinct ?L" and dR: "distinct ?R" and dis: "set ?L \<inter> set ?R = {}"
      by blast+
    \<comment> \<open>the left half\<close>
    let ?L' = "msort ?lt ?L" and ?R' = "msort ?lt ?R"
    have lt2: "lt_addr cmp h2 = ?lt" using r2 by (rule lt_addr_relinked)
    have "length ?L < ?n" using k by simp
    from less.hyps [OF this s2(1) dL ne(1)] obtain h3 where
      l3: "priv_sort cmp h2 (Some (hd ?L)) (Some (last ?L))
          = Some (Return (Some (hd ?L'), Some (last ?L')) h3)"
      and s3: "dlseg h3 None ?L' None" and r3: "relinked (set ?L) h2 h3"
      unfolding lt2 by blast
    have s3R: "dlseg h3 None ?R None"
      using s2(2) dlseg_relinked [OF r3, of ?R] dis by (simp add: Int_commute)
    \<comment> \<open>the right half\<close>
    have lt3: "lt_addr cmp h3 = ?lt" using r3 lt2 by (simp add: lt_addr_relinked)
    have "length ?R < ?n" using k less.prems(3) by simp
    from less.hyps [OF this s3R dR ne(2)] obtain h4 where
      l4: "priv_sort cmp h3 (Some (hd ?R)) (Some (last ?R))
          = Some (Return (Some (hd ?R'), Some (last ?R')) h4)"
      and s4: "dlseg h4 None ?R' None" and r4: "relinked (set ?R) h3 h4"
      unfolding lt3 by blast
    have s4L: "dlseg h4 None ?L' None"
      using s3 dlseg_relinked [OF r4, of ?L'] dis by (simp add: set_msort)
    \<comment> \<open>the merge\<close>
    have lt4: "lt_addr cmp h4 = ?lt" using r4 lt3 by (simp add: lt_addr_relinked)
    have ne': "?L' \<noteq> []" "?R' \<noteq> []" using ne by (simp_all add: msort_Nil_iff)
    have d': "distinct (?L' @ ?R')" using dL dR dis by (simp add: distinct_msort set_msort)
    from sort_merge_ok [OF s4L s4 ne' d', of cmp] obtain h5 where
      l5: "sort_merge cmp h4 (Some (hd ?L'), Some (last ?L')) (Some (hd ?R'), Some (last ?R'))
          = Some (Return (Some (hd (merge_lists ?lt ?L' ?R')),
                          Some (last (merge_lists ?lt ?L' ?R'))) h5)"
      and s5: "dlseg h5 None (merge_lists ?lt ?L' ?R') None"
      and r5: "relinked (set (?L' @ ?R')) h4 h5"
      unfolding lt4 by blast
    have m: "msort ?lt as = merge_lists ?lt ?L' ?R'"
      using False by (subst msort.simps) simp
    \<comment> \<open>all together\<close>
    have run: "priv_sort cmp h (Some (hd as)) (Some (last as))
        = Some (Return (Some (hd (msort ?lt as)), Some (last (msort ?lt as))) h5)"
      apply (subst priv_sort.simps)
      using bne split cut l3 l4 l5 hdL lastR unfolding m
      by simp
    have sets: "set (?L @ ?R) = set as" "set ?L \<subseteq> set as" "set ?R \<subseteq> set as"
      "set (?L' @ ?R') \<subseteq> set as"
      using set_take_subset [of ?k as] set_drop_subset [of ?k as] by (simp_all add: set_msort)
    have "relinked (set as) h h2" using r2 sets(1) by simp
    moreover have "relinked (set as) h2 h3" using r3 sets(2) by (rule relinked_mono)
    moreover have "relinked (set as) h3 h4" using r4 sets(3) by (rule relinked_mono)
    moreover have "relinked (set as) h4 h5" using r5 sets(4) by (rule relinked_mono)
    ultimately have "relinked (set as) h h5"
      using relinked_trans [of "set as" _ _ "set as"] by (metis Un_absorb)
    with run s5 m show ?thesis by auto
  qed
qed

lemma swo_lt_addr: "strict_weak_order cmp \<Longrightarrow> strict_weak_order (lt_addr cmp h)"
  unfolding strict_weak_order_def lt_addr_def by blast

lemma values_of_keys: "values_of h as = map (key_of h) as"
  by (simp add: values_of_def key_of_def)

lemma equiv_by_sym: "equiv_by lt x y \<longleftrightarrow> equiv_by lt y x"
  by (auto simp: equiv_by_def)

lemma equiv_by_trans:
  "strict_weak_order lt \<Longrightarrow> equiv_by lt x y \<Longrightarrow> equiv_by lt y z \<Longrightarrow> equiv_by lt x z"
  unfolding strict_weak_order_def equiv_by_def by blast

text \<open>Stability of \<open>msort\<close> for a comparator that reads keys, with the class of any
  key value.\<close>

lemma stable_msort_keys:
  assumes "strict_weak_order cmp"
  shows "filter (\<lambda>a. equiv_by cmp v (f a)) (msort (\<lambda>a b. cmp (f a) (f b)) xs)
     = filter (\<lambda>a. equiv_by cmp v (f a)) xs"
proof -
  let ?lt = "\<lambda>a b. cmp (f a) (f b)"
  have swo: "strict_weak_order ?lt" using assms unfolding strict_weak_order_def by blast
  show ?thesis
  proof (cases "\<exists>b \<in> set xs. equiv_by cmp v (f b)")
    case True
    then obtain b where b: "b \<in> set xs" "equiv_by cmp v (f b)" by blast
    have "equiv_by cmp v (f a) \<longleftrightarrow> equiv_by ?lt b a" for a
    proof
      assume "equiv_by cmp v (f a)"
      with b(2) have "equiv_by cmp (f b) (f a)"
        using equiv_by_trans [OF assms, of "f b" v "f a"] equiv_by_sym [of cmp v "f b"] by blast
      then show "equiv_by ?lt b a" by (simp add: equiv_by_def)
    next
      assume "equiv_by ?lt b a"
      then have "equiv_by cmp (f b) (f a)" by (simp add: equiv_by_def)
      with b(2) show "equiv_by cmp v (f a)" using equiv_by_trans [OF assms] by blast
    qed
    then have e: "(\<lambda>a. equiv_by cmp v (f a)) = equiv_by ?lt b" by (intro ext) simp
    show ?thesis unfolding e using swo by (rule stable_msort)
  next
    case False
    then have "filter (\<lambda>a. equiv_by cmp v (f a)) xs = []" by (simp add: filter_empty_conv)
    moreover have "filter (\<lambda>a. equiv_by cmp v (f a)) (msort ?lt xs) = []"
      using False by (simp add: filter_empty_conv set_msort)
    ultimately show ?thesis by simp
  qed
qed

lemma lt_addr_keys: "lt_addr cmp h = (\<lambda>a b. cmp (key_of h a) (key_of h b))"
  by (intro ext) (simp add: lt_addr_def)

text \<open>
  C1. For every well-formed list and every strict weak ordering \<open>comp\<close>, \<open>sort(comp)\<close>
  returns and leaves a well-formed list of the same nodes, relinked in place (no
  node is allocated or deleted and no value changes), so that the values are a
  permutation of those of before; the values are ascending with respect to \<open>comp\<close>
  (no value is less than an earlier one); and the sort is stable: the nodes whose
  values \<open>comp\<close> does not order against a given value appear in their original relative
  order. Sorting the empty list changes nothing, and \<open>sort()\<close> is \<open>sort\<close> with
  less-than as the comparator.
\<close>

theorem stable_merge_sort:
  assumes "dllist_ok h l as" and "strict_weak_order cmp"
  shows "\<exists>h' l' as'. sort_dl cmp h l = Some (Return () (h', l'))
    \<and> dllist_ok h' l' as' \<and> relinked (set as) h h' \<and> size_dl l' = size_dl l
    \<and> mset as' = mset as
    \<and> mset (values_of h' as') = mset (values_of h as)
    \<and> sorted_wrt (\<lambda>x y. \<not> cmp y x) (values_of h' as')
    \<and> (\<forall>v. filter (\<lambda>a. equiv_by cmp v (key_of h' a)) as'
           = filter (\<lambda>a. equiv_by cmp v (key_of h a)) as)
    \<and> (\<forall>v. filter (equiv_by cmp v) (values_of h' as')
           = filter (equiv_by cmp v) (values_of h as))
    \<and> (as = [] \<longrightarrow> h' = h \<and> l' = l)
    \<and> (\<forall>(h0 :: 'b::linorder heap) l0. sort_default h0 l0 = sort_dl (\<lambda>a b. a < b) h0 l0)"
proof -
  let ?lt = "lt_addr cmp h"
  let ?as = "msort ?lt as"
  have swo: "strict_weak_order ?lt" using assms(2) by (rule swo_lt_addr)
  from assms(1) have seg: "dlseg h None as None" and d: "distinct as"
    and hd: "head l = first_ptr as" and tl: "tail l = last_ptr as"
    and len: "length as < 2 ^ 64" and sz: "size_dl l = of_nat (length as)"
    by (simp_all add: dllist_ok_def)
  have dflt: "\<forall>(h0 :: 'b::linorder heap) l0. sort_default h0 l0 = sort_dl (\<lambda>a b. a < b) h0 l0"
    by (simp add: sort_default_def)
  show ?thesis
  proof (cases "as = []")
    case True
    then have "sort_dl cmp h l = Some (Return () (h, l))"
      using hd by (simp add: sort_dl_def first_ptr_def)
    then show ?thesis using True assms(1) dflt
      by (intro exI [of _ h] exI [of _ l] exI [of _ "[]"]) simp
  next
    case False
    from priv_sort_ok [OF seg d False, of cmp] obtain h' where
      run: "priv_sort cmp h (Some (hd as)) (Some (last as))
          = Some (Return (Some (hd ?as), Some (last ?as)) h')"
      and seg': "dlseg h' None ?as None" and rel: "relinked (set as) h h'" by blast
    let ?l = "l\<lparr>head := Some (hd ?as), tail := Some (last ?as)\<rparr>"
    have hl: "head l = Some (hd as)" "tail l = Some (last as)"
      using hd tl False by (cases as; simp add: first_ptr_def last_ptr_def)+
    have r: "sort_dl cmp h l = Some (Return () (h', ?l))"
      using hl run by (simp add: sort_dl_def priv_sort_init_def)
    have ne: "?as \<noteq> []" using False by (simp add: msort_Nil_iff)
    have ms: "mset ?as = mset as" by (rule mset_msort)
    then have ln: "length ?as = length as" by (rule mset_eq_length)
    have ends: "first_ptr ?as = Some (hd ?as)" "last_ptr ?as = Some (last ?as)"
      using ne by (cases ?as; simp add: first_ptr_def last_ptr_def)+
    have ok: "dllist_ok h' ?l ?as"
      using seg' d ln len sz ends by (simp add: dllist_ok_def distinct_msort)
    have keys: "key_of h' = key_of h" using key_of_relinked [OF rel] by (intro ext)
    have vals: "values_of h' ?as = map (key_of h) ?as"
      unfolding values_of_keys keys by (rule refl)
    have "mset (map (key_of h) ?as) = mset (map (key_of h) as)"
      using ms by (simp only: mset_map)
    then have perm: "mset (values_of h' ?as) = mset (values_of h as)"
      unfolding values_of_keys keys .
    have "sorted_wrt (\<lambda>a b. \<not> ?lt b a) ?as" using swo by (rule sorted_msort)
    then have "sorted_wrt (\<lambda>x y. \<not> cmp y x) (map (key_of h) ?as)"
      unfolding sorted_wrt_map lt_addr_def .
    then have srt: "sorted_wrt (\<lambda>x y. \<not> cmp y x) (values_of h' ?as)"
      unfolding values_of_keys keys .
    have st0: "filter (\<lambda>a. equiv_by cmp v (key_of h a)) ?as
        = filter (\<lambda>a. equiv_by cmp v (key_of h a)) as" for v
      unfolding lt_addr_keys using assms(2) by (rule stable_msort_keys)
    have st: "\<forall>v. filter (\<lambda>a. equiv_by cmp v (key_of h' a)) ?as
        = filter (\<lambda>a. equiv_by cmp v (key_of h a)) as"
      unfolding keys using st0 by blast
    have "map (key_of h) (filter (\<lambda>a. equiv_by cmp v (key_of h a)) ?as)
        = map (key_of h) (filter (\<lambda>a. equiv_by cmp v (key_of h a)) as)" for v
      using st0 [of v] by (rule arg_cong)
    then have stv: "\<forall>v. filter (equiv_by cmp v) (values_of h' ?as)
        = filter (equiv_by cmp v) (values_of h as)"
      unfolding values_of_keys keys filter_map comp_def by blast
    have c4: "size_dl ?l = size_dl l" by simp
    have c10: "as = [] \<longrightarrow> h' = h \<and> ?l = l" using False by simp
    from r ok rel c4 ms perm srt st stv c10 dflt show ?thesis by blast
  qed
qed

lemma swo_less: "strict_weak_order ((<) :: 'b::linorder \<Rightarrow> 'b \<Rightarrow> bool)"
  by (auto simp: strict_weak_order_def)

theorem stable_merge_sort_witness:
  "dllist_ok two_nodes two_list [0, 1] \<and> strict_weak_order ((<) :: nat \<Rightarrow> nat \<Rightarrow> bool)
   \<and> (\<exists>h' l' as'. sort_dl (<) two_nodes two_list = Some (Return () (h', l'))
        \<and> dllist_ok h' l' as' \<and> mset as' = mset [0, 1]
        \<and> mset (values_of h' as') = mset (values_of two_nodes [0, 1])
        \<and> sorted_wrt (\<lambda>x y. \<not> y < x) (values_of h' as'))"
proof -
  have a: "dllist_ok two_nodes two_list [0, 1]" by (rule two_list_ok)
  have b: "strict_weak_order ((<) :: nat \<Rightarrow> nat \<Rightarrow> bool)" by (rule swo_less)
  from stable_merge_sort [OF a b] a b show ?thesis by blast
qed

lemma sort_two_example:
  "sort_dl (<) two_nodes two_list
     = Some (Return () (Map.empty(0 \<mapsto> \<lparr>val = 7, prev = Some 1, next = None\<rparr>,
                                  1 \<mapsto> \<lparr>val = 5, prev = None, next = Some 0\<rparr>),
                        \<lparr>head = Some 1, tail = Some 0, size_dl = 2\<rparr>))"
  by (simp add: sort_dl_def priv_sort_init_def priv_sort.simps sort_split.simps sort_merge_def
      merge_loop.simps merge_splice_def then_do_def two_nodes_def two_list_def Let_def
      set_next_def set_prev_def deref_def fun_upd_twist)

end
